theory Spec2Isabelle
  imports Main "HOL-Library.Sublist" "HOL-Library.Multiset" "HOL-Library.Monad_Syntax"
begin

section \<open>String matcher (include/osmium/util/string_matcher.hpp)\<close>

subsection \<open>The C and C++ library functions the matchers call\<close>

text \<open>
  A \<open>std::string\<close> is a byte sequence of known length that may hold the byte 0.
  A \<open>const char*\<close> is read up to the first byte 0; \<open>c_str\<close> gives what such a
  read sees of a byte sequence.
\<close>

definition c_str :: "string \<Rightarrow> string" where
  "c_str s = takeWhile (\<lambda>c. c \<noteq> CHR 0x00) s"

text \<open>Byte-wise three-way comparison (bytes compared as unsigned values).\<close>

fun compare_bytes :: "string \<Rightarrow> string \<Rightarrow> int" where
  "compare_bytes [] [] = 0"
| "compare_bytes [] (y # ys) = - 1"
| "compare_bytes (x # xs) [] = 1"
| "compare_bytes (x # xs) (y # ys) =
     (if x = y then compare_bytes xs ys
      else if (of_char x :: nat) < of_char y then - 1 else 1)"

text \<open>\<open>std::strcmp\<close>: both arguments are read as C strings.\<close>

definition strcmp :: "string \<Rightarrow> string \<Rightarrow> int" where
  "strcmp a b = compare_bytes (c_str a) (c_str b)"

text \<open>
  \<open>std::strstr(haystack, needle)\<close>: the position of the first occurrence of the
  needle in the haystack, or the null pointer (\<open>None\<close>).
\<close>

fun find_bytes :: "string \<Rightarrow> string \<Rightarrow> nat option" where
  "find_bytes [] n = (if n = [] then Some 0 else None)"
| "find_bytes (h # hs) n =
     (if prefix n (h # hs) then Some 0 else map_option Suc (find_bytes hs n))"

definition strstr :: "string \<Rightarrow> string \<Rightarrow> nat option" where
  "strstr haystack needle = find_bytes (c_str haystack) (c_str needle)"

text \<open>
  \<open>std::string::substr(pos, count)\<close> with \<open>count = npos\<close> written \<open>None\<close>, and
  \<open>a.compare(pos1, count1, b, pos2, count2)\<close>, which compares the two substrings.
  Both positions are 0 at the only call site, so the \<open>out_of_range\<close> exception for
  a position beyond the size cannot be raised there.
\<close>

fun substr :: "string \<Rightarrow> nat \<Rightarrow> nat option \<Rightarrow> string" where
  "substr s pos None = drop pos s"
| "substr s pos (Some n) = take n (drop pos s)"

definition string_compare ::
  "string \<Rightarrow> nat \<Rightarrow> nat option \<Rightarrow> string \<Rightarrow> nat \<Rightarrow> nat option \<Rightarrow> int" where
  "string_compare a pos1 count1 b pos2 count2 =
     compare_bytes (substr a pos1 count1) (substr b pos2 count2)"

subsection \<open>The matcher variants\<close>

text \<open>
  \<open>matcher_type\<close> is the \<open>boost::variant\<close> over the matcher classes (the regex
  variant exists only when \<open>OSMIUM_WITH_REGEX\<close> is defined and is left out). The
  constructors carry the member \<open>m_str\<close> or \<open>m_strings\<close>.
\<close>

datatype matcher_type =
    always_false
  | always_true
  | equal_m string
  | prefix_m string
  | substring_m string
  | list_m "string list"

text \<open>The loop of \<open>list::match\<close>, returning at the first equal string.\<close>

fun list_match :: "string list \<Rightarrow> string \<Rightarrow> bool" where
  "list_match [] test_string = False"
| "list_match (s # ss) test_string =
     (if strcmp s test_string = 0 then True else list_match ss test_string)"

text \<open>
  \<open>match(const char* test_string)\<close> of each class. The argument is the byte
  sequence at the pointer; \<open>prefix::match\<close> converts it to a \<open>std::string\<close> first.
\<close>

fun match :: "matcher_type \<Rightarrow> string \<Rightarrow> bool" where
  "match always_false test_string = False"
| "match always_true test_string = True"
| "match (equal_m m_str) test_string = (strcmp m_str test_string = 0)"
| "match (prefix_m m_str) test_string =
     (string_compare m_str 0 None (c_str test_string) 0 (Some (length m_str)) = 0)"
| "match (substring_m m_str) test_string = (strstr test_string m_str \<noteq> None)"
| "match (list_m m_strings) test_string = list_match m_strings test_string"

text \<open>
  The constructors of \<open>StringMatcher\<close> and its call operators. The operator taking
  a \<open>std::string\<close> passes \<open>str.c_str()\<close> on.
\<close>

definition StringMatcher :: matcher_type where
  "StringMatcher = always_false"

definition StringMatcher_bool :: "bool \<Rightarrow> matcher_type" where
  "StringMatcher_bool result = (if result then always_true else always_false)"

definition StringMatcher_str :: "string \<Rightarrow> matcher_type" where
  "StringMatcher_str str = equal_m str"

definition StringMatcher_strings :: "string list \<Rightarrow> matcher_type" where
  "StringMatcher_strings strings = list_m strings"

definition call :: "matcher_type \<Rightarrow> string \<Rightarrow> bool" where
  "call m_matcher str = match m_matcher str"

definition call_string :: "matcher_type \<Rightarrow> string \<Rightarrow> bool" where
  "call_string m_matcher str = call m_matcher (c_str str)"

text \<open>A byte sequence that a C string can hold: no byte 0 inside.\<close>

definition nul_free :: "string \<Rightarrow> bool" where
  "nul_free s = (CHR 0x00 \<notin> set s)"

section \<open>Relation collector (include/osmium/relations/collector.hpp)\<close>

subsection \<open>OSM objects\<close>

text \<open>
  \<open>osmium::item_type\<close> restricted to the three kinds a relation member or a
  pass-2 object can have (\<open>node = 1\<close>, \<open>way = 2\<close>, \<open>relation = 3\<close>); the value
  indexes the array \<open>m_member_meta\<close> as \<open>type - 1\<close>.
\<close>

datatype item_type = node | way | relation

text \<open>
  Modelled from the spec: the OSM object contract (section 6; the headers under
  \<open>osmium/osm\<close> are missing). A member exposes type, ref and role, and its ref
  is mutable on the arena copy. An object exposes type and id and, for a relation,
  its member list; \<open>version\<close> stands for the rest of the object's content and
  \<open>removed_flag\<close> is the flag of the arena item that \<open>set_removed\<close> writes.
  Identifiers are 64-bit signed in the source; they are only compared, never
  computed with, so \<open>int\<close> holds them.
\<close>

record RelationMember =
  member_type :: item_type
  ref :: int
  role :: string

record OSMObject =
  obj_type :: item_type
  obj_id :: int
  version :: nat
  members :: "RelationMember list"
  removed_flag :: bool

subsection \<open>RelationMeta and MemberMeta\<close>

text \<open>
  Modelled from the spec: \<open>RelationMeta\<close> (section 3;
  \<open>relations/detail/relation_meta.hpp\<close> is missing). A location in the relations
  arena and the count of interesting members still outstanding; the relation has all
  its members when the count is zero. The default constructor, used by the collector
  to overwrite a completed entry, gives offset 0 and count 0. The count is an
  \<open>int\<close> of the source; no path of the collector brings it near the 32-bit limits,
  so the model leaves it unbounded.
\<close>

record RelationMeta =
  relation_offset :: nat
  need_members :: int

definition RelationMeta_default :: RelationMeta where
  "RelationMeta_default = \<lparr>relation_offset = 0, need_members = 0\<rparr>"

definition RelationMeta_at :: "nat \<Rightarrow> RelationMeta" where
  "RelationMeta_at offset = \<lparr>relation_offset = offset, need_members = 0\<rparr>"

definition increment_need_members :: "RelationMeta \<Rightarrow> RelationMeta" where
  "increment_need_members rm = rm\<lparr>need_members := need_members rm + 1\<rparr>"

definition got_one_member :: "RelationMeta \<Rightarrow> RelationMeta" where
  "got_one_member rm = rm\<lparr>need_members := need_members rm - 1\<rparr>"

definition has_all_members :: "RelationMeta \<Rightarrow> bool" where
  "has_all_members rm = (need_members rm = 0)"

text \<open>
  Modelled from the spec: \<open>MemberMeta\<close> (section 3;
  \<open>relations/detail/member_meta.hpp\<close> is missing). A new record has not seen its
  object (buffer offset at the sentinel, taken as 0) and is not removed. The order
  used for sorting and binary search looks at \<open>member_id\<close> only.
\<close>

record MemberMeta =
  member_id :: int
  relation_pos :: nat
  member_pos :: nat
  buffer_offset :: nat
  removed :: bool

definition MemberMeta_new :: "int \<Rightarrow> nat \<Rightarrow> nat \<Rightarrow> MemberMeta" where
  "MemberMeta_new mid rpos mpos =
     \<lparr>member_id = mid, relation_pos = rpos, member_pos = mpos,
      buffer_offset = 0, removed = False\<rparr>"

definition set_buffer_offset :: "nat \<Rightarrow> MemberMeta \<Rightarrow> MemberMeta" where
  "set_buffer_offset offset mm = mm\<lparr>buffer_offset := offset\<rparr>"

definition remove_mm :: "MemberMeta \<Rightarrow> MemberMeta" where
  "remove_mm mm = mm\<lparr>removed := True\<rparr>"

subsection \<open>Arena buffer\<close>

text \<open>
  Modelled from the spec: the arena buffer contract (section 6;
  \<open>memory/buffer.hpp\<close> is missing). \<open>items\<close> holds what has been written, of
  which the first \<open>committed\<close> are committed. Every item takes one unit of space, so
  the offset at which an item begins is its position. \<open>commit\<close> returns the offset
  at which the data committed by it begins.
\<close>

record Buffer =
  items :: "OSMObject list"
  committed :: nat

definition Buffer_new :: Buffer where
  "Buffer_new = \<lparr>items = [], committed = 0\<rparr>"

definition add_item :: "Buffer \<Rightarrow> OSMObject \<Rightarrow> Buffer" where
  "add_item b x = b\<lparr>items := items b @ [x]\<rparr>"

definition commit :: "Buffer \<Rightarrow> nat \<times> Buffer" where
  "commit b = (committed b, b\<lparr>committed := length (items b)\<rparr>)"

definition rollback :: "Buffer \<Rightarrow> Buffer" where
  "rollback b = b\<lparr>items := take (committed b) (items b)\<rparr>"

definition get :: "Buffer \<Rightarrow> nat \<Rightarrow> OSMObject option" where
  "get b offset = (if offset < length (items b) then Some (items b ! offset) else None)"

definition committed_items :: "Buffer \<Rightarrow> OSMObject list" where
  "committed_items b = take (committed b) (items b)"

subsection \<open>The collector's state and its hooks\<close>

text \<open>
  A call of a hook of the derived class, as the collector makes it, or the call
  \<open>m_members_buffer.purge_removed(this)\<close>. \<open>complete_relation\<close> is logged with the position in its vector of the
  \<open>MemberMeta\<close> whose arrival completed the relation, the index of the relation in
  \<open>m_relations\<close> and the \<open>RelationMeta\<close> passed to the hook.
\<close>

datatype hook_call =
    complete_relation nat nat RelationMeta
  | node_not_in_any_relation OSMObject
  | way_not_in_any_relation OSMObject
  | relation_not_in_any_relation OSMObject
  | purge_removed_call

text \<open>
  The members of the class. \<open>m_member_meta\<close> is the array of three vectors, read
  through \<open>member_meta(type)\<close>. \<open>calls\<close> is the sequence of logged calls made so
  far; the hooks themselves are taken to leave the collector's members alone.
\<close>

record Collector =
  m_relations_buffer :: Buffer
  m_members_buffer :: Buffer
  m_relations :: "RelationMeta list"
  m_member_meta :: "item_type \<Rightarrow> MemberMeta list"
  m_count_complete :: int
  calls :: "hook_call list"

definition Collector_new :: Collector where
  "Collector_new =
     \<lparr>m_relations_buffer = Buffer_new, m_members_buffer = Buffer_new,
      m_relations = [], m_member_meta = (\<lambda>_. []), m_count_complete = 0, calls = []\<rparr>"

text \<open>
  The template parameters: the three booleans and the hooks \<open>keep_relation\<close> and
  \<open>keep_member\<close> of the derived class \<open>TCollector\<close>.
\<close>

record TCollector =
  TNodes :: bool
  TWays :: bool
  TRelations :: bool
  keep_relation :: "OSMObject \<Rightarrow> bool"
  keep_member :: "RelationMeta \<Rightarrow> RelationMember \<Rightarrow> bool"

text \<open>The hooks as the base class defines them: keep everything.\<close>

definition default_hooks :: "bool \<Rightarrow> bool \<Rightarrow> bool \<Rightarrow> TCollector" where
  "default_hooks n w r =
     \<lparr>TNodes = n, TWays = w, TRelations = r,
      keep_relation = (\<lambda>_. True), keep_member = (\<lambda>_ _. True)\<rparr>"

subsection \<open>Searching the member vectors\<close>

text \<open>
  \<open>std::equal_range\<close> with the order on \<open>member_id\<close>: the pair of
  \<open>std::lower_bound\<close> and \<open>std::upper_bound\<close>, each the partition point of the
  vector for its predicate. On a vector sorted by \<open>member_id\<close> the range holds
  exactly the records with the given id.
\<close>

definition lower_bound :: "MemberMeta list \<Rightarrow> int \<Rightarrow> nat" where
  "lower_bound v x = length (takeWhile (\<lambda>mm. member_id mm < x) v)"

definition upper_bound :: "MemberMeta list \<Rightarrow> int \<Rightarrow> nat" where
  "upper_bound v x = length (takeWhile (\<lambda>mm. \<not> x < member_id mm) v)"

definition equal_range :: "MemberMeta list \<Rightarrow> int \<Rightarrow> nat \<times> nat" where
  "equal_range v x = (lower_bound v x, upper_bound v x)"

definition find_member_meta :: "Collector \<Rightarrow> item_type \<Rightarrow> int \<Rightarrow> nat \<times> nat" where
  "find_member_meta c type x = equal_range (m_member_meta c type) x"

definition count_not_removed :: "MemberMeta list \<Rightarrow> nat \<times> nat \<Rightarrow> nat" where
  "count_not_removed v rng =
     length (filter (\<lambda>mm. \<not> removed mm) (take (snd rng - fst rng) (drop (fst rng) v)))"

subsection \<open>Reading the arenas\<close>

text \<open>
  A failed \<open>assert\<close> and a read outside a vector end the run: the functions of the
  second pass return \<open>None\<close> there.
\<close>

definition get_relation :: "Collector \<Rightarrow> nat \<Rightarrow> OSMObject option" where
  "get_relation c offset =
     (if committed (m_relations_buffer c) > offset then get (m_relations_buffer c) offset
      else None)"

definition get_relation_of_meta :: "Collector \<Rightarrow> RelationMeta \<Rightarrow> OSMObject option" where
  "get_relation_of_meta c relation_meta = get_relation c (relation_offset relation_meta)"

definition get_relation_of_member :: "Collector \<Rightarrow> MemberMeta \<Rightarrow> OSMObject option" where
  "get_relation_of_member c mm =
     (if relation_pos mm < length (m_relations c)
      then get_relation_of_meta c (m_relations c ! relation_pos mm)
      else None)"

definition get_member :: "Collector \<Rightarrow> nat \<Rightarrow> OSMObject option" where
  "get_member c offset =
     (if committed (m_members_buffer c) > offset then get (m_members_buffer c) offset
      else None)"

definition get_offset :: "Collector \<Rightarrow> item_type \<Rightarrow> int \<Rightarrow> nat option" where
  "get_offset c type x =
     (let rng = find_member_meta c type x in
      if fst rng = snd rng then None
      else Some (buffer_offset (m_member_meta c type ! fst rng)))"

subsection \<open>First pass\<close>

text \<open>
  The loop of \<open>add_relation\<close> over the members of the arena copy. It returns the
  members as the copy holds them afterwards (an uninteresting member has its ref set
  to 0), the \<open>RelationMeta\<close> and the member vectors. \<open>sz\<close> is
  \<open>m_relations.size()\<close> and \<open>n\<close> the running member position.
\<close>

fun add_members ::
  "TCollector \<Rightarrow> nat \<Rightarrow> RelationMember list \<Rightarrow> nat \<Rightarrow> RelationMeta
     \<Rightarrow> (item_type \<Rightarrow> MemberMeta list)
     \<Rightarrow> RelationMember list \<times> RelationMeta \<times> (item_type \<Rightarrow> MemberMeta list)" where
  "add_members T sz [] n relation_meta mmv = ([], relation_meta, mmv)"
| "add_members T sz (member # rest) n relation_meta mmv =
     (if keep_member T relation_meta member
      then (case add_members T sz rest (n + 1) (increment_need_members relation_meta)
                   (mmv(member_type member :=
                      mmv (member_type member) @ [MemberMeta_new (ref member) sz n]))
            of (ms, rm, mmv') \<Rightarrow> (member # ms, rm, mmv'))
      else (case add_members T sz rest (n + 1) relation_meta mmv
            of (ms, rm, mmv') \<Rightarrow> (member\<lparr>ref := 0\<rparr> # ms, rm, mmv')))"

definition add_relation :: "TCollector \<Rightarrow> Collector \<Rightarrow> OSMObject \<Rightarrow> Collector option" where
  "add_relation T c rel =
     (let offset = committed (m_relations_buffer c);
          b1 = add_item (m_relations_buffer c) rel
      in case get b1 offset of
           None \<Rightarrow> None
         | Some stored \<Rightarrow>
            (case add_members T (length (m_relations c)) (members stored) 0
                    (RelationMeta_at offset) (m_member_meta c)
             of (ms, relation_meta, mmv) \<Rightarrow>
               (let b2 = b1\<lparr>items := (items b1)[offset := stored\<lparr>members := ms\<rparr>]\<rparr>;
                    c1 = c\<lparr>m_member_meta := mmv\<rparr>
                in if offset \<noteq> committed b2 then None
                   else if has_all_members relation_meta
                   then Some (c1\<lparr>m_relations_buffer := rollback b2\<rparr>)
                   else Some (c1\<lparr>m_relations_buffer := snd (commit b2),
                                 m_relations := m_relations c @ [relation_meta]\<rparr>))))"

text \<open>
  \<open>HandlerPass1\<close> has a callback for relations only; \<open>osmium::apply\<close> feeds it
  every object of the input.
\<close>

definition pass1_object :: "TCollector \<Rightarrow> Collector \<Rightarrow> OSMObject \<Rightarrow> Collector option" where
  "pass1_object T c obj =
     (if obj_type obj = relation \<and> keep_relation T obj then add_relation T c obj
      else Some c)"

fun apply_pass1 :: "TCollector \<Rightarrow> Collector \<Rightarrow> OSMObject list \<Rightarrow> Collector option" where
  "apply_pass1 T c [] = Some c"
| "apply_pass1 T c (obj # objs) =
     (case pass1_object T c obj of None \<Rightarrow> None | Some c1 \<Rightarrow> apply_pass1 T c1 objs)"

text \<open>
  \<open>std::sort\<close> with the order on \<open>member_id\<close> is a parameter: any function that
  returns a permutation of its argument in non-decreasing order of \<open>member_id\<close>.
  The standard leaves the order of records with equal ids open.
\<close>

definition sort_spec :: "(MemberMeta list \<Rightarrow> MemberMeta list) \<Rightarrow> bool" where
  "sort_spec std_sort =
     (\<forall>v. mset (std_sort v) = mset v \<and> sorted (map member_id (std_sort v)))"

definition sort_member_meta ::
  "(MemberMeta list \<Rightarrow> MemberMeta list) \<Rightarrow> Collector \<Rightarrow> Collector" where
  "sort_member_meta std_sort c =
     c\<lparr>m_member_meta := (\<lambda>type. std_sort (m_member_meta c type))\<rparr>"

definition read_relations ::
  "(MemberMeta list \<Rightarrow> MemberMeta list) \<Rightarrow> TCollector \<Rightarrow> Collector \<Rightarrow> OSMObject list
     \<Rightarrow> Collector option" where
  "read_relations std_sort T c input =
     map_option (sort_member_meta std_sort) (apply_pass1 T c input)"

subsection \<open>Second pass\<close>

definition set_member_meta :: "Collector \<Rightarrow> item_type \<Rightarrow> MemberMeta list \<Rightarrow> Collector" where
  "set_member_meta c type v = c\<lparr>m_member_meta := (m_member_meta c)(type := v)\<rparr>"

definition log_call :: "Collector \<Rightarrow> hook_call \<Rightarrow> Collector" where
  "log_call c e = c\<lparr>calls := calls c @ [e]\<rparr>"

text \<open>
  \<open>moving_in_buffer\<close>: every record in the equal-range of the object at the old
  offset is asserted to point to the old offset and is pointed to the new one.
\<close>

fun move_offsets :: "MemberMeta list \<Rightarrow> nat list \<Rightarrow> nat \<Rightarrow> nat \<Rightarrow> MemberMeta list option" where
  "move_offsets v [] old_offset new_offset = Some v"
| "move_offsets v (i # rest) old_offset new_offset =
     (if buffer_offset (v ! i) \<noteq> old_offset then None
      else move_offsets (v[i := set_buffer_offset new_offset (v ! i)]) rest
             old_offset new_offset)"

definition moving_in_buffer :: "Collector \<Rightarrow> nat \<Rightarrow> nat \<Rightarrow> Collector option" where
  "moving_in_buffer c old_offset new_offset =
     (case get (m_members_buffer c) old_offset of
        None \<Rightarrow> None
      | Some object \<Rightarrow>
         (let type = obj_type object;
              rng = find_member_meta c type (obj_id object)
          in case move_offsets (m_member_meta c type) [fst rng..<snd rng]
                    old_offset new_offset of
               None \<Rightarrow> None
             | Some v \<Rightarrow> Some (set_member_meta c type v)))"

text \<open>
  Modelled from the spec: \<open>Buffer::purge_removed(listener)\<close> (section 6;
  \<open>memory/buffer.hpp\<close> is missing). It compacts away the committed items flagged
  removed, keeps the order of the survivors and, for each survivor that moves, calls
  \<open>moving_in_buffer(old, new)\<close> on the collector before finalizing. \<open>wr\<close> is the
  offset the next survivor gets.
\<close>

fun purge_moves :: "Collector \<Rightarrow> nat list \<Rightarrow> nat \<Rightarrow> Collector option" where
  "purge_moves c [] wr = Some c"
| "purge_moves c (rd # rest) wr =
     (case get (m_members_buffer c) rd of
        None \<Rightarrow> None
      | Some item \<Rightarrow>
         if removed_flag item then purge_moves c rest wr
         else (case (if rd \<noteq> wr then moving_in_buffer c rd wr else Some c) of
                 None \<Rightarrow> None
               | Some c1 \<Rightarrow> purge_moves c1 rest (wr + 1)))"

definition compact :: "Buffer \<Rightarrow> Buffer" where
  "compact b =
     (let kept = filter (\<lambda>x. \<not> removed_flag x) (committed_items b)
      in \<lparr>items = kept, committed = length kept\<rparr>)"

definition purge_removed :: "Collector \<Rightarrow> Collector option" where
  "purge_removed c =
     (case purge_moves c [0..<committed (m_members_buffer c)] 0 of
        None \<Rightarrow> None
      | Some c1 \<Rightarrow> Some (c1\<lparr>m_members_buffer := compact (m_members_buffer c1)\<rparr>))"

definition possibly_purge_removed_members :: "Collector \<Rightarrow> Collector option" where
  "possibly_purge_removed_members c =
     (let c1 = c\<lparr>m_count_complete := m_count_complete c + 1\<rparr> in
      if m_count_complete c1 > 10000
      then (case purge_removed (log_call c1 purge_removed_call) of
              None \<Rightarrow> None
            | Some c2 \<Rightarrow> Some (c2\<lparr>m_count_complete := 0\<rparr>))
      else Some c1)"

text \<open>
  The inner loop of \<open>clear_member_metas\<close>: the first record of the range that is
  not removed and whose relation has the given id is marked removed.
\<close>

fun remove_first :: "Collector \<Rightarrow> int \<Rightarrow> item_type \<Rightarrow> nat list \<Rightarrow> Collector option" where
  "remove_first c rel_id type [] = Some c"
| "remove_first c rel_id type (i # rest) =
     (let mm = m_member_meta c type ! i in
      if removed mm then remove_first c rel_id type rest
      else (case get_relation_of_member c mm of
              None \<Rightarrow> None
            | Some r \<Rightarrow>
               if rel_id = obj_id r
               then Some (set_member_meta c type ((m_member_meta c type)[i := remove_mm mm]))
               else remove_first c rel_id type rest))"

definition set_member_removed :: "Collector \<Rightarrow> nat \<Rightarrow> Collector option" where
  "set_member_removed c offset =
     (case get_member c offset of
        None \<Rightarrow> None
      | Some obj \<Rightarrow>
         Some (c\<lparr>m_members_buffer := (m_members_buffer c)
                 \<lparr>items := (items (m_members_buffer c))[offset := obj\<lparr>removed_flag := True\<rparr>]\<rparr>\<rparr>))"

fun clear_members :: "Collector \<Rightarrow> OSMObject \<Rightarrow> RelationMember list \<Rightarrow> Collector option" where
  "clear_members c rel [] = Some c"
| "clear_members c rel (member # rest) =
     (if ref member \<noteq> 0
      then (let type = member_type member;
                rng = find_member_meta c type (ref member)
            in if fst rng = snd rng then None
               else (case (if count_not_removed (m_member_meta c type) rng = 1
                           then set_member_removed c
                                  (buffer_offset (m_member_meta c type ! fst rng))
                           else Some c) of
                       None \<Rightarrow> None
                     | Some c1 \<Rightarrow>
                        (case remove_first c1 (obj_id rel) type [fst rng..<snd rng] of
                           None \<Rightarrow> None
                         | Some c2 \<Rightarrow> clear_members c2 rel rest)))
      else clear_members c rel rest)"

definition clear_member_metas :: "Collector \<Rightarrow> RelationMeta \<Rightarrow> Collector option" where
  "clear_member_metas c relation_meta =
     (case get_relation_of_meta c relation_meta of
        None \<Rightarrow> None
      | Some rel \<Rightarrow> clear_members c rel (members rel))"

text \<open>
  \<open>find_and_add_object\<close>. The block that stores the object and points every record
  of the range to the copy:
\<close>

fun set_offsets :: "MemberMeta list \<Rightarrow> nat list \<Rightarrow> nat \<Rightarrow> MemberMeta list" where
  "set_offsets v [] member_offset = v"
| "set_offsets v (i # rest) member_offset =
     set_offsets (v[i := set_buffer_offset member_offset (v ! i)]) rest member_offset"

definition store_member :: "Collector \<Rightarrow> OSMObject \<Rightarrow> nat \<times> nat \<Rightarrow> Collector" where
  "store_member c object rng =
     (case commit (add_item (m_members_buffer c) object) of
        (member_offset, b) \<Rightarrow>
          set_member_meta (c\<lparr>m_members_buffer := b\<rparr>) (obj_type object)
            (set_offsets (m_member_meta c (obj_type object)) [fst rng..<snd rng]
               member_offset))"

text \<open>
  The second loop over the range. It stops at the first record it finds removed;
  the three \<open>assert\<close>s come before the counter is decremented.
\<close>

fun notify_relations :: "Collector \<Rightarrow> OSMObject \<Rightarrow> nat list \<Rightarrow> Collector option" where
  "notify_relations c object [] = Some c"
| "notify_relations c object (i # rest) =
     (let mm = m_member_meta c (obj_type object) ! i in
      if removed mm then Some c
      else if member_id mm \<noteq> obj_id object then None
      else if \<not> relation_pos mm < length (m_relations c) then None
      else
        (let relation_meta = m_relations c ! relation_pos mm in
         case get_relation_of_meta c relation_meta of
           None \<Rightarrow> None
         | Some rel \<Rightarrow>
            if \<not> member_pos mm < length (members rel) then None
            else
              (let relation_meta1 = got_one_member relation_meta;
                   c1 = c\<lparr>m_relations := (m_relations c)[relation_pos mm := relation_meta1]\<rparr>
               in if has_all_members relation_meta1
                  then (let relation_offset = relation_pos mm;
                            c2 = log_call c1 (complete_relation i relation_offset relation_meta1)
                        in case clear_member_metas c2 relation_meta1 of
                             None \<Rightarrow> None
                           | Some c3 \<Rightarrow>
                              (case possibly_purge_removed_members
                                      (c3\<lparr>m_relations :=
                                            (m_relations c3)[relation_offset := RelationMeta_default]\<rparr>) of
                                 None \<Rightarrow> None
                               | Some c4 \<Rightarrow> notify_relations c4 object rest))
                  else notify_relations c1 object rest)))"

definition find_and_add_object :: "Collector \<Rightarrow> OSMObject \<Rightarrow> (bool \<times> Collector) option" where
  "find_and_add_object c object =
     (let rng = find_member_meta c (obj_type object) (obj_id object) in
      if count_not_removed (m_member_meta c (obj_type object)) rng = 0 then Some (False, c)
      else map_option (Pair True)
             (notify_relations (store_member c object rng) object [fst rng..<snd rng]))"

text \<open>\<open>HandlerPass2\<close>: the callbacks for the three kinds.\<close>

definition handle_object ::
  "bool \<Rightarrow> (OSMObject \<Rightarrow> hook_call) \<Rightarrow> Collector \<Rightarrow> OSMObject \<Rightarrow> Collector option" where
  "handle_object enabled not_in_any_relation c obj =
     (if enabled
      then (case find_and_add_object c obj of
              None \<Rightarrow> None
            | Some (found, c1) \<Rightarrow>
               if \<not> found then Some (log_call c1 (not_in_any_relation obj)) else Some c1)
      else Some c)"

definition pass2_object :: "TCollector \<Rightarrow> Collector \<Rightarrow> OSMObject \<Rightarrow> Collector option" where
  "pass2_object T c obj =
     (case obj_type obj of
        node \<Rightarrow> handle_object (TNodes T) node_not_in_any_relation c obj
      | way \<Rightarrow> handle_object (TWays T) way_not_in_any_relation c obj
      | relation \<Rightarrow> handle_object (TRelations T) relation_not_in_any_relation c obj)"

fun apply_pass2 :: "TCollector \<Rightarrow> Collector \<Rightarrow> OSMObject list \<Rightarrow> Collector option" where
  "apply_pass2 T c [] = Some c"
| "apply_pass2 T c (obj # objs) =
     (case pass2_object T c obj of None \<Rightarrow> None | Some c1 \<Rightarrow> apply_pass2 T c1 objs)"

text \<open>
  \<open>get_incomplete_relations\<close>: the pointers into the relations arena, as offsets,
  of the entries of \<open>m_relations\<close> that do not have all members.
\<close>

fun incomplete_offsets :: "Collector \<Rightarrow> RelationMeta list \<Rightarrow> nat list option" where
  "incomplete_offsets c [] = Some []"
| "incomplete_offsets c (relation_meta # rest) =
     (if \<not> has_all_members relation_meta
      then (case get_relation_of_meta c relation_meta of
              None \<Rightarrow> None
            | Some rel \<Rightarrow> map_option (Cons (relation_offset relation_meta))
                             (incomplete_offsets c rest))
      else incomplete_offsets c rest)"

definition get_incomplete_relations :: "Collector \<Rightarrow> nat list option" where
  "get_incomplete_relations c = incomplete_offsets c (m_relations c)"

subsection \<open>Drivers and inputs used to state the properties\<close>

text \<open>\<open>n\<close> calls of \<open>possibly_purge_removed_members\<close> in a row, and the number
  of purges among the logged calls.\<close>

fun repeat_purge :: "nat \<Rightarrow> Collector \<Rightarrow> Collector option" where
  "repeat_purge 0 c = Some c"
| "repeat_purge (Suc n) c =
     (case possibly_purge_removed_members c of
        None \<Rightarrow> None
      | Some c1 \<Rightarrow> repeat_purge n c1)"

fun count_purges :: "hook_call list \<Rightarrow> nat" where
  "count_purges [] = 0"
| "count_purges (e # es) = (if e = purge_removed_call then 1 else 0) + count_purges es"

text \<open>
  The input of \<open>fill_buffer\<close> in test/t/relations/test_members_database.cpp: three
  relations and six ways, built with the attributes the test gives (id and members).
\<close>

definition mk_member :: "item_type \<Rightarrow> int \<Rightarrow> string \<Rightarrow> RelationMember" where
  "mk_member t r ro = \<lparr>member_type = t, ref = r, role = ro\<rparr>"

definition mk_relation :: "int \<Rightarrow> RelationMember list \<Rightarrow> OSMObject" where
  "mk_relation i ms =
     \<lparr>obj_type = relation, obj_id = i, version = 1, members = ms, removed_flag = False\<rparr>"

definition mk_way :: "int \<Rightarrow> OSMObject" where
  "mk_way i = \<lparr>obj_type = way, obj_id = i, version = 1, members = [], removed_flag = False\<rparr>"

definition fill_relations :: "OSMObject list" where
  "fill_relations =
     [mk_relation 20 [mk_member way 10 ''outer''],
      mk_relation 21 [mk_member way 11 ''outer'', mk_member way 12 ''outer''],
      mk_relation 22 [mk_member way 13 ''outer'', mk_member way 10 ''inner'',
                      mk_member way 14 ''inner'']]"

definition fill_ways :: "OSMObject list" where
  "fill_ways = [mk_way 10, mk_way 11, mk_way 12, mk_way 13, mk_way 14, mk_way 15]"

definition fill_buffer :: "OSMObject list" where
  "fill_buffer = fill_relations @ fill_ways"

text \<open>
  The way vector after the first pass over \<open>fill_buffer\<close>, before sorting, and the
  two orders a sort can leave it in: the records of way 10 come first, in either
  order.
\<close>

definition S1_metas :: "MemberMeta list" where
  "S1_metas =
     [MemberMeta_new 10 0 0, MemberMeta_new 11 1 0, MemberMeta_new 12 1 1,
      MemberMeta_new 13 2 0, MemberMeta_new 10 2 1, MemberMeta_new 14 2 2]"

definition S1_sorted :: "bool \<Rightarrow> MemberMeta list" where
  "S1_sorted swap =
     (if swap then [MemberMeta_new 10 2 1, MemberMeta_new 10 0 0]
      else [MemberMeta_new 10 0 0, MemberMeta_new 10 2 1])
     @ [MemberMeta_new 11 1 0, MemberMeta_new 12 1 1, MemberMeta_new 13 2 0,
        MemberMeta_new 14 2 2]"

definition S1_pass1 :: "bool \<Rightarrow> Collector" where
  "S1_pass1 swap =
     \<lparr>m_relations_buffer = \<lparr>items = fill_relations, committed = 3\<rparr>,
      m_members_buffer = Buffer_new,
      m_relations = [\<lparr>relation_offset = 0, need_members = 1\<rparr>,
                     \<lparr>relation_offset = 1, need_members = 2\<rparr>,
                     \<lparr>relation_offset = 2, need_members = 3\<rparr>],
      m_member_meta = (\<lambda>_. [])(way := S1_sorted swap),
      m_count_complete = 0, calls = []\<rparr>"

text \<open>
  What the first pass keeps invariant: nothing uncommitted is left in the relations
  arena, and every \<open>MemberMeta\<close> refers to an entry of \<open>m_relations\<close>.
\<close>

definition pass1_inv :: "Collector \<Rightarrow> bool" where
  "pass1_inv c =
     (length (items (m_relations_buffer c)) = committed (m_relations_buffer c)
      \<and> (\<forall>t. \<forall>mm\<in>set (m_member_meta c t). relation_pos mm < length (m_relations c)))"

text \<open>
  What \<open>moving_in_buffer\<close> does to a sorted vector: the records with the given id
  are pointed to the new offset.
\<close>

definition retarget :: "int \<Rightarrow> nat \<Rightarrow> MemberMeta list \<Rightarrow> MemberMeta list" where
  "retarget x new v =
     map (\<lambda>mm. if member_id mm = x then set_buffer_offset new mm else mm) v"

text \<open>
  The offset compaction gives the item at offset \<open>A\<close>: the number of items before
  it that are not flagged removed.
\<close>

definition new_offset :: "Buffer \<Rightarrow> nat \<Rightarrow> nat" where
  "new_offset b A = length (filter (\<lambda>x. \<not> removed_flag x) (take A (items b)))"

definition sorted_vectors :: "Collector \<Rightarrow> bool" where
  "sorted_vectors c = (\<forall>t. sorted (map member_id (m_member_meta c t)))"



text \<open>
  What the second pass never changes in a member vector: its length and the id,
  relation index and member position of each record; and a record marked removed
  stays removed.
\<close>

definition keeps_keys :: "MemberMeta list \<Rightarrow> MemberMeta list \<Rightarrow> bool" where
  "keeps_keys v v' =
     list_all2 (\<lambda>a b. member_id b = member_id a \<and> relation_pos b = relation_pos a
                    \<and> member_pos b = member_pos a \<and> (removed a \<longrightarrow> removed b)) v v'"

text \<open>
  The \<open>complete_relation\<close> calls among the logged calls, each as the pair of the
  position of the triggering \<open>MemberMeta\<close> and the index of the relation.
\<close>

fun completions :: "hook_call list \<Rightarrow> (nat \<times> nat) list" where
  "completions [] = []"
| "completions (complete_relation i p rm # es) = (i, p) # completions es"
| "completions (e # es) = completions es"

text \<open>
  The frame of the steps inside \<open>find_and_add_object\<close> that neither decrement a
  counter nor call \<open>complete_relation\<close>.
\<close>

definition pass2_frame :: "Collector \<Rightarrow> Collector \<Rightarrow> bool" where
  "pass2_frame c c' =
     (m_relations_buffer c' = m_relations_buffer c \<and> m_relations c' = m_relations c
      \<and> (\<forall>t. keeps_keys (m_member_meta c t) (m_member_meta c' t))
      \<and> completions (calls c') = completions (calls c))"

text \<open>
  The number of positions in \<open>[i0, k)\<close> of a vector whose record belongs to the
  relation with index \<open>p\<close>.
\<close>

definition hits :: "MemberMeta list \<Rightarrow> nat \<Rightarrow> nat \<Rightarrow> nat \<Rightarrow> nat" where
  "hits v i0 k p = length (filter (\<lambda>i. relation_pos (v ! i) = p) [i0..<k])"

text \<open>
  What the second loop of \<open>find_and_add_object\<close> over the positions \<open>[i0, hi)\<close>
  has done when it returns \<open>c'\<close>: it has visited the positions \<open>[i0, k)\<close>, whose
  records were not removed, and stopped at \<open>k\<close> because the range ended or the
  record there was found removed; every visit decremented the counter of the
  record's relation; \<open>ks\<close> lists the completions, in ascending position, each at
  the visit that brought its relation's counter to zero.
\<close>

definition notify_post ::
  "Collector \<Rightarrow> item_type \<Rightarrow> int \<Rightarrow> nat \<Rightarrow> nat \<Rightarrow> Collector \<Rightarrow> nat \<Rightarrow> (nat \<times> nat) list \<Rightarrow> bool" where
  "notify_post c t x i0 hi c' k ks =
     (i0 \<le> k \<and> k \<le> hi
      \<and> m_relations_buffer c' = m_relations_buffer c
      \<and> (\<forall>t'. keeps_keys (m_member_meta c t') (m_member_meta c' t'))
      \<and> length (m_relations c') = length (m_relations c)
      \<and> (\<forall>p<length (m_relations c).
            need_members (m_relations c' ! p)
            = need_members (m_relations c ! p) - int (hits (m_member_meta c t) i0 k p))
      \<and> (k < hi \<longrightarrow> removed (m_member_meta c' t ! k))
      \<and> (\<forall>i. i0 \<le> i \<and> i < k \<longrightarrow>
            \<not> removed (m_member_meta c t ! i) \<and> member_id (m_member_meta c t ! i) = x
            \<and> relation_pos (m_member_meta c t ! i) < length (m_relations c))
      \<and> completions (calls c') = completions (calls c) @ ks
      \<and> sorted_wrt (<) (map fst ks)
      \<and> (\<forall>e\<in>set ks. i0 \<le> fst e \<and> fst e < k
            \<and> snd e = relation_pos (m_member_meta c t ! fst e)
            \<and> need_members (m_relations c ! snd e)
                = int (hits (m_member_meta c t) i0 (Suc (fst e)) (snd e))))"

text \<open>
  An input with a duplicate: relation 30 with way 1, relation 31 with ways 1 and 2,
  and way 1 arriving twice. \<open>dup_pass1\<close> is the collector after the first pass with a
  sort that leaves the already sorted vector as it is, \<open>dup_once\<close> the collector
  after the first arrival of way 1.
\<close>

definition dup_relations :: "OSMObject list" where
  "dup_relations =
     [mk_relation 30 [mk_member way 1 ''outer''],
      mk_relation 31 [mk_member way 1 ''outer'', mk_member way 2 ''inner'']]"

definition dup_pass1 :: Collector where
  "dup_pass1 =
     \<lparr>m_relations_buffer = \<lparr>items = dup_relations, committed = 2\<rparr>,
      m_members_buffer = Buffer_new,
      m_relations = [\<lparr>relation_offset = 0, need_members = 1\<rparr>,
                     \<lparr>relation_offset = 1, need_members = 2\<rparr>],
      m_member_meta =
        (\<lambda>_. [])(way := [MemberMeta_new 1 0 0, MemberMeta_new 1 1 0, MemberMeta_new 2 1 1]),
      m_count_complete = 0, calls = []\<rparr>"

definition dup_once :: Collector where
  "dup_once =
     \<lparr>m_relations_buffer = \<lparr>items = dup_relations, committed = 2\<rparr>,
      m_members_buffer = \<lparr>items = [mk_way 1], committed = 1\<rparr>,
      m_relations = [\<lparr>relation_offset = 0, need_members = 0\<rparr>,
                     \<lparr>relation_offset = 1, need_members = 1\<rparr>],
      m_member_meta =
        (\<lambda>_. [])(way := [(MemberMeta_new 1 0 0)\<lparr>removed := True\<rparr>, MemberMeta_new 1 1 0,
                          MemberMeta_new 2 1 1]),
      m_count_complete = 1,
      calls = [complete_relation 0 0 \<lparr>relation_offset = 0, need_members = 0\<rparr>]\<rparr>"

text \<open>
  No relation has been handed to \<open>complete_relation\<close> twice, and the entries of the
  relations handed over have no outstanding members.
\<close>

definition completed_once :: "Collector \<Rightarrow> bool" where
  "completed_once c =
     (distinct (map snd (completions (calls c)))
      \<and> (\<forall>p\<in>set (map snd (completions (calls c))).
            p < length (m_relations c) \<and> need_members (m_relations c ! p) \<le> 0))"

text \<open>Nothing uncommitted is left in the members arena.\<close>

definition members_committed :: "Collector \<Rightarrow> bool" where
  "members_committed c =
     (length (items (m_members_buffer c)) = committed (m_members_buffer c))"

text \<open>What every state of the second pass satisfies.\<close>

definition pass2_inv :: "Collector \<Rightarrow> bool" where
  "pass2_inv c = (completed_once c \<and> members_committed c)"

text \<open>
  The number of records of a member vector of kind \<open>t\<close> that belong to the relation
  with index \<open>p\<close> and whose object is not among the objects \<open>A\<close> seen so far, and
  the sum over the three vectors.
\<close>

definition missing :: "MemberMeta list \<Rightarrow> item_type \<Rightarrow> (item_type \<times> int) set \<Rightarrow> nat \<Rightarrow> nat" where
  "missing v t A p = length (filter (\<lambda>mm. relation_pos mm = p \<and> (t, member_id mm) \<notin> A) v)"

definition outstanding :: "Collector \<Rightarrow> (item_type \<times> int) set \<Rightarrow> nat \<Rightarrow> nat" where
  "outstanding c A p =
     missing (m_member_meta c node) node A p + missing (m_member_meta c way) way A p
     + missing (m_member_meta c relation) relation A p"

text \<open>
  What the first pass establishes beyond \<open>pass1_inv\<close>: entry \<open>p\<close> of \<open>m_relations\<close>
  points to offset \<open>p\<close> of the relations arena and counts the records of relation
  \<open>p\<close>, and no record is marked removed.
\<close>

definition pass1_counts :: "Collector \<Rightarrow> bool" where
  "pass1_counts c =
     (length (m_relations c) = committed (m_relations_buffer c)
      \<and> (\<forall>p<length (m_relations c).
            relation_offset (m_relations c ! p) = p
            \<and> need_members (m_relations c ! p) = int (outstanding c {} p))
      \<and> (\<forall>t. \<forall>mm\<in>set (m_member_meta c t). \<not> removed mm))"

text \<open>
  What holds of the relations arena, \<open>m_relations\<close> and the member vectors throughout
  the second pass when the stored relations have distinct ids: the arena holds one
  relation per entry of \<open>m_relations\<close>; every record refers to an entry; an entry
  that still waits for members points to its own relation; and a record is marked
  removed only when the entry of its relation waits for no member.
\<close>

definition slots_ok :: "Collector \<Rightarrow> bool" where
  "slots_ok c =
     (length (items (m_relations_buffer c)) = committed (m_relations_buffer c)
      \<and> length (m_relations c) = committed (m_relations_buffer c)
      \<and> distinct (map obj_id (items (m_relations_buffer c)))
      \<and> (\<forall>t. \<forall>i<length (m_member_meta c t).
            relation_pos (m_member_meta c t ! i) < length (m_relations c))
      \<and> (\<forall>p<length (m_relations c).
            0 < need_members (m_relations c ! p) \<longrightarrow> relation_offset (m_relations c ! p) = p)
      \<and> (\<forall>t. \<forall>i<length (m_member_meta c t).
            removed (m_member_meta c t ! i) \<longrightarrow>
              need_members (m_relations c ! relation_pos (m_member_meta c t ! i)) \<le> 0))"

text \<open>
  Every entry of \<open>m_relations\<close> counts the records of its relation whose object
  is not among the objects \<open>A\<close> seen so far.
\<close>

definition counts_ok :: "Collector \<Rightarrow> (item_type \<times> int) set \<Rightarrow> bool" where
  "counts_ok c A =
     (\<forall>p<length (m_relations c). need_members (m_relations c ! p) = int (outstanding c A p))"

text \<open>
  The objects that reach \<open>find_and_add_object\<close> in the second pass: those of a
  kind the handler is enabled for, each as the pair of its kind and id.
\<close>

definition handled :: "TCollector \<Rightarrow> OSMObject \<Rightarrow> bool" where
  "handled T obj =
     (case obj_type obj of node \<Rightarrow> TNodes T | way \<Rightarrow> TWays T | relation \<Rightarrow> TRelations T)"

definition arrived :: "TCollector \<Rightarrow> OSMObject list \<Rightarrow> (item_type \<times> int) list" where
  "arrived T objs = map (\<lambda>obj. (obj_type obj, obj_id obj)) (filter (handled T) objs)"

text \<open>
  An input with a duplicate that completes a relation too early: relation 31 with
  ways 1 and 2, and way 1 arriving twice while way 2 never arrives.
\<close>

definition early_relations :: "OSMObject list" where
  "early_relations =
     [mk_relation 31 [mk_member way 1 ''outer'', mk_member way 2 ''inner'']]"

text \<open>
  An input in which a kept member has the id 0: relation 1 with way 5, relation 2
  with ways 5 and 0. \<open>clear_member_metas\<close> skips the members with ref 0, so the
  record of way 0 is never marked removed.
\<close>

definition zero_id_relations :: "OSMObject list" where
  "zero_id_relations =
     [mk_relation 1 [mk_member way 5 ''outer''],
      mk_relation 2 [mk_member way 5 ''outer'', mk_member way 0 ''inner'']]"

text \<open>
  A sort that \<open>std::sort\<close> may behave like: among records with equal ids, those with
  the smaller member position come first.
\<close>

definition pos_sort :: "MemberMeta list \<Rightarrow> MemberMeta list" where
  "pos_sort v = sort_key member_id (sort_key member_pos v)"

text \<open>
  An input in which three stored relations share the id 7, one of them listing way 1
  twice; the relation at offset 0 has another id.
\<close>

definition shared_id_relations :: "OSMObject list" where
  "shared_id_relations =
     [mk_relation 9 [mk_member way 50 ''outer''],
      mk_relation 7 [mk_member way 1 ''outer'', mk_member way 1 ''inner''],
      mk_relation 7 [mk_member way 1 ''outer''],
      mk_relation 7 [mk_member way 2 ''outer'', mk_member way 1 ''inner'']]"



text \<open>
  What the steps of the second loop other than a purge leave of the members arena
  and of the buffer offsets: the arena keeps its items at their offsets, some of
  them newly flagged removed, and every record keeps its \<open>buffer_offset\<close>.
\<close>

definition flagged :: "Buffer \<Rightarrow> Buffer \<Rightarrow> bool" where
  "flagged b b' =
     (committed b' = committed b
      \<and> list_all2 (\<lambda>x y. y = x \<or> y = x\<lparr>removed_flag := True\<rparr>) (items b) (items b'))"

definition offsets_kept :: "Collector \<Rightarrow> Collector \<Rightarrow> bool" where
  "offsets_kept c c' =
     ((\<forall>t. map buffer_offset (m_member_meta c' t) = map buffer_offset (m_member_meta c t))
      \<and> flagged (m_members_buffer c) (m_members_buffer c'))"

section \<open>Properties of the string matcher\<close>

lemma c_str_nul_free: "nul_free s \<Longrightarrow> c_str s = s"
  by (auto simp: c_str_def nul_free_def takeWhile_eq_all_conv)

lemma compare_bytes_eq: "compare_bytes a b = 0 \<longleftrightarrow> a = b"
  by (induction a b rule: compare_bytes.induct) auto

lemma strcmp_nul_free:
  "nul_free a \<Longrightarrow> nul_free b \<Longrightarrow> strcmp a b = 0 \<longleftrightarrow> a = b"
  by (simp add: strcmp_def c_str_nul_free compare_bytes_eq)

lemma find_bytes_sublist: "find_bytes h n \<noteq> None \<longleftrightarrow> sublist n h"
  by (induction h) (auto simp: sublist_Cons_right)

lemma list_match_nul_free:
  "\<lbrakk>\<forall>s\<in>set ss. nul_free s; nul_free t\<rbrakk> \<Longrightarrow> list_match ss t \<longleftrightarrow> t \<in> set ss"
  by (induction ss) (auto simp: strcmp_nul_free)

lemma prefix_take_eq: "take (length s) t = s \<longleftrightarrow> prefix s t"
  by (metis append_eq_conv_conj prefix_def)

text \<open>
  C10. A default-constructed \<open>StringMatcher\<close> holds \<open>always_false\<close> and matches no
  string, through either call operator.
\<close>

theorem default_matches_nothing:
  "StringMatcher = always_false \<and> \<not> call StringMatcher t \<and> \<not> call_string StringMatcher t"
  by (simp add: StringMatcher_def call_def call_string_def)

text \<open>
  C5 as stated fails for a stored string with an embedded byte 0: \<open>equal\<close> and
  \<open>list\<close> compare with \<open>strcmp\<close> and \<open>substring\<close> searches with \<open>strstr\<close>,
  which stop at that byte, so the stored three bytes \<open>a\<close>, 0, \<open>b\<close> match the test
  string \<open>a\<close>, which is neither equal to them nor contains them.
\<close>

theorem equal_embedded_nul_counterexample:
  "match (equal_m [CHR ''a'', CHR 0x00, CHR ''b'']) ''a''
   \<and> [CHR ''a'', CHR 0x00, CHR ''b''] \<noteq> ''a''
   \<and> match (substring_m [CHR ''a'', CHR 0x00, CHR ''b'']) ''a''
   \<and> \<not> sublist [CHR ''a'', CHR 0x00, CHR ''b''] ''a''
   \<and> match (list_m [[CHR ''a'', CHR 0x00, CHR ''b'']]) ''a''
   \<and> ''a'' \<notin> set [[CHR ''a'', CHR 0x00, CHR ''b'']]"
  by (simp add: strcmp_def strstr_def c_str_def sublist_Cons_right)

text \<open>
  C5, amended. For every test string \<open>t\<close> (a C string, so without an embedded
  byte 0): \<open>prefix(s)\<close> matches \<open>t\<close> iff \<open>t\<close> starts with \<open>s\<close>, for every stored
  string \<open>s\<close>; \<open>always_true\<close> matches and \<open>always_false\<close> does not; and for stored
  strings without an embedded byte 0: \<open>equal(s)\<close> matches \<open>t\<close> iff \<open>s = t\<close>,
  \<open>substring(s)\<close> iff \<open>t\<close> contains \<open>s\<close> as a contiguous substring, and
  \<open>list(ss)\<close> iff \<open>t\<close> is one of \<open>ss\<close>.
\<close>

theorem matcher_semantics:
  assumes "nul_free t"
  shows "(nul_free s \<longrightarrow> (match (equal_m s) t \<longleftrightarrow> s = t))
       \<and> (match (prefix_m s) t \<longleftrightarrow> prefix s t)
       \<and> (nul_free s \<longrightarrow> (match (substring_m s) t \<longleftrightarrow> sublist s t))
       \<and> ((\<forall>x\<in>set ss. nul_free x) \<longrightarrow> (match (list_m ss) t \<longleftrightarrow> (\<exists>x\<in>set ss. x = t)))
       \<and> match always_true t
       \<and> \<not> match always_false t"
proof -
  have e: "match (equal_m s) t \<longleftrightarrow> s = t" if "nul_free s"
    using assms that by (simp add: strcmp_nul_free)
  have p: "match (prefix_m s) t \<longleftrightarrow> prefix s t"
    using assms
    by (simp add: string_compare_def c_str_nul_free compare_bytes_eq)
       (metis prefix_take_eq)
  have u: "match (substring_m s) t \<longleftrightarrow> sublist s t" if "nul_free s"
    using assms that find_bytes_sublist [of t s] by (simp add: strstr_def c_str_nul_free)
  have l: "match (list_m ss) t \<longleftrightarrow> (\<exists>x\<in>set ss. x = t)" if "\<forall>x\<in>set ss. nul_free x"
    using assms that by (auto simp: list_match_nul_free)
  from e p u l show ?thesis by simp
qed

theorem matcher_semantics_witness:
  "(match (equal_m ''way'') ''way'' \<longleftrightarrow> ''way'' = ''way'')
   \<and> (match (prefix_m [CHR ''w'', CHR 0x00]) ''way'' \<longleftrightarrow> prefix [CHR ''w'', CHR 0x00] ''way'')
   \<and> (match (substring_m ''way'') ''way'' \<longleftrightarrow> sublist ''way'' ''way'')
   \<and> (match (list_m [''node'', ''way'']) ''way'' \<longleftrightarrow> (\<exists>x\<in>set [''node'', ''way'']. x = ''way''))
   \<and> match always_true ''way''
   \<and> \<not> match always_false ''way''"
proof -
  have a: "nul_free ''way''" by (simp add: nul_free_def)
  have b: "\<forall>x\<in>set [''node'', ''way'']. nul_free x" by (simp add: nul_free_def)
  from matcher_semantics [OF a, of "''way''" "[''node'', ''way'']"] a b
  have 1: "(match (equal_m ''way'') ''way'' \<longleftrightarrow> ''way'' = ''way'')"
    and 3: "(match (substring_m ''way'') ''way'' \<longleftrightarrow> sublist ''way'' ''way'')"
    and 4: "(match (list_m [''node'', ''way'']) ''way''
              \<longleftrightarrow> (\<exists>x\<in>set [''node'', ''way'']. x = ''way''))"
    and 5: "match always_true ''way''" and 6: "\<not> match always_false ''way''"
    by blast+
  from matcher_semantics [OF a, of "[CHR ''w'', CHR 0x00]"]
  have 2: "(match (prefix_m [CHR ''w'', CHR 0x00]) ''way''
              \<longleftrightarrow> prefix [CHR ''w'', CHR 0x00] ''way'')"
    by blast
  from 1 2 3 4 5 6 show ?thesis by blast
qed

section \<open>Properties of the collector\<close>

subsection \<open>Frame of the purge, and its period\<close>

lemma count_purges_append [simp]: "count_purges (xs @ ys) = count_purges xs + count_purges ys"
  by (induction xs) auto

lemma moving_in_buffer_frame:
  assumes "moving_in_buffer c a b = Some c'"
  shows "m_relations_buffer c' = m_relations_buffer c" "m_members_buffer c' = m_members_buffer c"
    "m_relations c' = m_relations c" "m_count_complete c' = m_count_complete c"
    "calls c' = calls c"
  using assms
  by (auto simp: moving_in_buffer_def set_member_meta_def Let_def split: option.splits)

lemma purge_moves_frame:
  "purge_moves c rds wr = Some c' \<Longrightarrow>
     m_relations_buffer c' = m_relations_buffer c \<and> m_members_buffer c' = m_members_buffer c
     \<and> m_relations c' = m_relations c \<and> m_count_complete c' = m_count_complete c
     \<and> calls c' = calls c"
proof (induction rds arbitrary: c wr)
  case Nil
  then show ?case by simp
next
  case (Cons rd rds)
  from Cons.prems obtain item where g: "get (m_members_buffer c) rd = Some item"
    by (auto split: option.splits)
  show ?case
  proof (cases "removed_flag item \<or> rd = wr")
    case True
    with g Cons.prems Cons.IH show ?thesis by (auto split: if_splits)
  next
    case False
    with g Cons.prems obtain c1 where
      m: "moving_in_buffer c rd wr = Some c1" and p: "purge_moves c1 rds (wr + 1) = Some c'"
      by (auto split: option.splits)
    from moving_in_buffer_frame [OF m] Cons.IH [OF p]
    show ?thesis by simp
  qed
qed

lemma purge_removed_frame:
  "purge_removed c = Some c' \<Longrightarrow>
     m_relations_buffer c' = m_relations_buffer c \<and> m_relations c' = m_relations c
     \<and> m_count_complete c' = m_count_complete c \<and> calls c' = calls c"
  unfolding purge_removed_def
  by (auto split: option.splits dest!: purge_moves_frame)

lemma possibly_purge_counter:
  assumes "possibly_purge_removed_members c = Some c'"
  shows "m_count_complete c' = (if m_count_complete c + 1 > 10000 then 0 else m_count_complete c + 1)"
    and "calls c' = calls c @ (if m_count_complete c + 1 > 10000 then [purge_removed_call] else [])"
    and "m_relations c' = m_relations c" and "m_relations_buffer c' = m_relations_buffer c"
  using assms unfolding possibly_purge_removed_members_def Let_def
  by (auto split: if_splits option.splits dest!: purge_removed_frame simp: log_call_def)

lemma repeat_purge_count:
  "repeat_purge n c = Some c' \<Longrightarrow> 0 \<le> m_count_complete c \<Longrightarrow> m_count_complete c \<le> 10000 \<Longrightarrow>
     m_count_complete c' = (m_count_complete c + int n) mod 10001
     \<and> int (count_purges (calls c')) = int (count_purges (calls c)) + (m_count_complete c + int n) div 10001"
proof (induction n arbitrary: c)
  case 0
  then show ?case by simp
next
  case (Suc n)
  from Suc.prems obtain c1 where
    s: "possibly_purge_removed_members c = Some c1" and r: "repeat_purge n c1 = Some c'"
    by (auto split: option.splits)
  note k = possibly_purge_counter(1,2) [OF s]
  show ?case
  proof (cases "m_count_complete c = 10000")
    case True
    with k have "m_count_complete c1 = 0" "count_purges (calls c1) = count_purges (calls c) + 1"
      by simp_all
    with Suc.IH [OF r] True show ?thesis by simp
  next
    case False
    with Suc.prems k have "m_count_complete c1 = m_count_complete c + 1" "count_purges (calls c1) = count_purges (calls c)"
      by simp_all
    with Suc.IH [OF r] False Suc.prems show ?thesis by (simp add: add.assoc)
  qed
qed

lemma purge_removed_new:
  "m_members_buffer c = Buffer_new \<Longrightarrow> purge_removed c = Some c"
  by (simp add: purge_removed_def Buffer_new_def compact_def committed_items_def)

lemma repeat_purge_new:
  "m_members_buffer c = Buffer_new \<Longrightarrow> 0 \<le> m_count_complete c \<Longrightarrow> m_count_complete c \<le> 10000 \<Longrightarrow>
   repeat_purge n c = Some (c\<lparr>m_count_complete := (m_count_complete c + int n) mod 10001,
       calls := calls c @ replicate (nat ((m_count_complete c + int n) div 10001)) purge_removed_call\<rparr>)"
proof (induction n arbitrary: c)
  case 0
  then show ?case by simp
next
  case (Suc n)
  show ?case
  proof (cases "m_count_complete c = 10000")
    case True
    then have s: "possibly_purge_removed_members c = Some (c\<lparr>m_count_complete := 0, calls := calls c @ [purge_removed_call]\<rparr>)"
      using Suc.prems by (simp add: possibly_purge_removed_members_def purge_removed_new log_call_def)
    have d: "nat ((10001 + int n) div 10001) = Suc (nat (int n div 10001))"
      by (simp add: Suc_nat_eq_nat_zadd1 pos_imp_zdiv_nonneg_iff)
    show ?thesis using Suc.prems True
      by (simp add: s Suc.IH d)
  next
    case False
    then have s: "possibly_purge_removed_members c = Some (c\<lparr>m_count_complete := m_count_complete c + 1\<rparr>)"
      using Suc.prems by (simp add: possibly_purge_removed_members_def)
    show ?thesis using Suc.prems False
      by (simp add: s Suc.IH add.assoc)
  qed
qed

text \<open>
  C4. The code does not purge once per 10 000 completions, nor every thousand calls
  as the comment of \<open>possibly_purge_removed_members\<close> says: the test is
  \<open>m_count_complete > 10000\<close> after the increment, so the first 10 000 completions
  of a new collector issue no purge.
\<close>

theorem no_purge_in_10000_counterexample:
  "map_option (\<lambda>c. (m_count_complete c, calls c)) (repeat_purge 10000 Collector_new)
   = Some (10000, [])"
proof -
  have "repeat_purge 10000 Collector_new
        = Some (Collector_new\<lparr>m_count_complete := 10000, calls := []\<rparr>)"
    using repeat_purge_new [of Collector_new 10000] by (simp add: Collector_new_def)
  then show ?thesis by simp
qed

text \<open>
  C4, what the code does. The counter is incremented on each call; the purge is issued on the
  call that finds the counter at 10 000 (the incremented counter exceeds 10 000) and
  the counter is then reset to zero; no other call issues a purge. From a counter
  within 0..10 000, after \<open>n\<close> calls the counter is \<open>(counter + n) mod 10001\<close> and
  \<open>(counter + n) div 10001\<close> purges have been issued: one per 10 001 completions.
\<close>

theorem purge_every_10001_calls:
  assumes "0 \<le> m_count_complete c" and "m_count_complete c \<le> 10000"
    and "repeat_purge n c = Some c'"
  shows "m_count_complete c' = (m_count_complete c + int n) mod 10001
       \<and> int (count_purges (calls c'))
           = int (count_purges (calls c)) + (m_count_complete c + int n) div 10001"
  using repeat_purge_count [OF assms(3) assms(1) assms(2)] .

theorem purge_every_10001_calls_witness:
  "\<exists>c'. repeat_purge 10001 Collector_new = Some c'
       \<and> m_count_complete c' = 0 \<and> count_purges (calls c') = 1"
proof -
  have z: "m_count_complete Collector_new = 0" "calls Collector_new = []"
    by (simp_all add: Collector_new_def)
  obtain c' where r: "repeat_purge 10001 Collector_new = Some c'"
    using repeat_purge_new [of Collector_new 10001] by (simp add: Collector_new_def)
  from purge_every_10001_calls [OF _ _ r] z
  have "m_count_complete c' = 0 \<and> int (count_purges (calls c')) = 1" by simp
  with r show ?thesis by simp
qed

subsection \<open>First pass\<close>

lemma add_members_none_kept:
  "\<forall>m\<in>set ms. \<not> keep_member T rm m \<Longrightarrow>
     add_members T sz ms n rm mmv = (map (\<lambda>m. m\<lparr>ref := 0\<rparr>) ms, rm, mmv)"
  by (induction ms arbitrary: n) auto

lemma add_members_need_mono:
  "add_members T sz ms n rm mmv = (ms', rm', mmv') \<Longrightarrow> need_members rm \<le> need_members rm'"
proof (induction ms arbitrary: n rm mmv ms')
  case Nil
  then show ?case by simp
next
  case (Cons m ms)
  then show ?case
    by (fastforce simp: increment_need_members_def split: if_splits prod.splits)
qed

lemma add_members_need_same:
  "add_members T sz ms n rm mmv = (ms', rm', mmv') \<Longrightarrow>
     need_members rm' = need_members rm \<Longrightarrow> mmv' = mmv"
proof (induction ms arbitrary: n rm mmv ms')
  case Nil
  then show ?case by simp
next
  case (Cons m ms)
  show ?case
  proof (cases "keep_member T rm m")
    case True
    with Cons.prems obtain ms1 where
      "add_members T sz ms (n + 1) (increment_need_members rm)
         (mmv(member_type m := mmv (member_type m) @ [MemberMeta_new (ref m) sz n]))
       = (ms1, rm', mmv')"
      by (auto split: prod.splits)
    from add_members_need_mono [OF this] Cons.prems(2) show ?thesis
      by (simp add: increment_need_members_def)
  next
    case False
    with Cons.prems Cons.IH show ?thesis
      by (auto split: prod.splits)
  qed
qed

lemma add_members_relation_pos:
  "add_members T sz ms n rm mmv = (ms', rm', mmv') \<Longrightarrow> mm \<in> set (mmv' t) \<Longrightarrow>
     mm \<in> set (mmv t) \<or> relation_pos mm = sz"
proof (induction ms arbitrary: n rm mmv ms')
  case Nil
  then show ?case by simp
next
  case (Cons m ms)
  show ?case
  proof (cases "keep_member T rm m")
    case True
    let ?mmv1 = "mmv(member_type m := mmv (member_type m) @ [MemberMeta_new (ref m) sz n])"
    from True Cons.prems obtain ms1 where
      r: "add_members T sz ms (n + 1) (increment_need_members rm) ?mmv1 = (ms1, rm', mmv')"
      by (auto split: prod.splits)
    from Cons.IH [OF r Cons.prems(2)] show ?thesis
      by (auto simp: MemberMeta_new_def split: if_splits)
  next
    case False
    with Cons.prems Cons.IH show ?thesis
      by (auto split: prod.splits)
  qed
qed

lemma need_members_RelationMeta_at [simp]: "need_members (RelationMeta_at offset) = 0"
  by (simp add: RelationMeta_at_def)

lemma add_relation_eq:
  assumes "length (items (m_relations_buffer c)) = committed (m_relations_buffer c)"
  shows "add_relation T c rel =
     (case add_members T (length (m_relations c)) (members rel) 0
             (RelationMeta_at (committed (m_relations_buffer c))) (m_member_meta c)
      of (ms, rm, mmv) \<Rightarrow>
        if has_all_members rm then Some (c\<lparr>m_member_meta := mmv\<rparr>)
        else Some (c\<lparr>m_member_meta := mmv,
                     m_relations_buffer :=
                       \<lparr>items = items (m_relations_buffer c) @ [rel\<lparr>members := ms\<rparr>],
                        committed = Suc (committed (m_relations_buffer c))\<rparr>,
                     m_relations := m_relations c @ [rm]\<rparr>))"
proof -
  let ?b = "m_relations_buffer c"
  have n: "(items ?b @ [rel]) ! committed ?b = rel"
    using nth_append_length [of "items ?b" rel] assms by simp
  have u: "\<And>x. (items ?b @ [rel])[committed ?b := x] = items ?b @ [x]"
    using assms by (metis length_list_update list_update_length)
  have g: "get (add_item ?b rel) (committed ?b) = Some rel"
    using n assms by (simp add: get_def add_item_def)
  have r: "\<And>x. rollback (?b\<lparr>items := items ?b @ [x]\<rparr>) = ?b"
    using assms by (simp add: rollback_def)
  have k: "\<And>x. snd (commit (?b\<lparr>items := items ?b @ [x]\<rparr>))
             = \<lparr>items = items ?b @ [x], committed = Suc (committed ?b)\<rparr>"
    using assms by (simp add: commit_def)
  show ?thesis
    unfolding add_relation_def Let_def g
    by (simp add: add_item_def u r k split: prod.splits)
qed

lemma add_relation_inv:
  assumes "pass1_inv c"
  shows "\<exists>c'. add_relation T c rel = Some c' \<and> pass1_inv c'"
proof -
  let ?b = "m_relations_buffer c"
  let ?off = "committed ?b"
  from assms have len: "length (items ?b) = ?off" by (simp add: pass1_inv_def)
  obtain ms rm mmv where
    a: "add_members T (length (m_relations c)) (members rel) 0 (RelationMeta_at ?off) (m_member_meta c) = (ms, rm, mmv)"
    by (metis prod_cases3)
  show ?thesis
  proof (cases "has_all_members rm")
    case True
    then have "mmv = m_member_meta c"
      using add_members_need_same [OF a] by (simp add: has_all_members_def)
    then show ?thesis using True assms
      by (simp add: add_relation_eq [OF len] a pass1_inv_def)
  next
    case False
    then show ?thesis using assms add_members_relation_pos [OF a]
      by (fastforce simp add: add_relation_eq [OF len] a pass1_inv_def less_Suc_eq)
  qed
qed

lemma apply_pass1_inv:
  "pass1_inv c \<Longrightarrow> \<exists>c'. apply_pass1 T c input = Some c' \<and> pass1_inv c'"
proof (induction input arbitrary: c)
  case Nil
  then show ?case by simp
next
  case (Cons obj input)
  from add_relation_inv [OF Cons.prems, of T obj] Cons.prems
  obtain c1 where "pass1_object T c obj = Some c1" "pass1_inv c1"
    by (cases "obj_type obj = relation \<and> keep_relation T obj") (auto simp: pass1_object_def)
  with Cons.IH [of c1] show ?case by simp
qed

lemma pass1_inv_new: "pass1_inv Collector_new"
  by (simp add: pass1_inv_def Collector_new_def Buffer_new_def)

lemma sort_key_spec: "sort_spec (sort_key member_id)"
  by (simp add: sort_spec_def)

text \<open>
  C9. For every input and every choice of hooks, the first pass followed by
  \<open>sort_member_meta\<close> returns, and then every \<open>MemberMeta\<close> of each of the three
  vectors has a \<open>relation_pos\<close> that is an index into \<open>m_relations\<close>, and each
  vector is non-decreasing in \<open>member_id\<close>.
\<close>

theorem sorted_valid_after_pass1:
  assumes "sort_spec std_sort"
  shows "\<exists>c. read_relations std_sort T Collector_new input = Some c
     \<and> (\<forall>type. (\<forall>mm\<in>set (m_member_meta c type). relation_pos mm < length (m_relations c))
             \<and> sorted (map member_id (m_member_meta c type)))"
proof -
  from apply_pass1_inv [OF pass1_inv_new, of T input]
  obtain c1 where a: "apply_pass1 T Collector_new input = Some c1" and i: "pass1_inv c1"
    by blast
  have s: "\<And>v. set (std_sort v) = set v" "\<And>v. sorted (map member_id (std_sort v))"
    using assms by (auto simp: sort_spec_def dest: mset_eq_setD)
  show ?thesis using a i s
    by (simp add: read_relations_def sort_member_meta_def pass1_inv_def)
qed

theorem sorted_valid_after_pass1_witness:
  "\<exists>c. read_relations (sort_key member_id) (default_hooks False True False) Collector_new
          fill_buffer = Some c
     \<and> (\<forall>type. (\<forall>mm\<in>set (m_member_meta c type). relation_pos mm < length (m_relations c))
             \<and> sorted (map member_id (m_member_meta c type)))"
  using sorted_valid_after_pass1 [OF sort_key_spec] .

text \<open>
  C7. When the relations arena holds nothing uncommitted (which the first pass keeps
  true) and \<open>keep_member\<close> returns false on every member of a relation that
  \<open>keep_relation\<close> keeps, \<open>add_relation\<close> leaves the whole collector as it was:
  the relations arena, \<open>m_relations\<close> and the three member vectors are unchanged.
\<close>

theorem rollback_when_no_member_kept:
  assumes "length (items (m_relations_buffer c)) = committed (m_relations_buffer c)"
    and "obj_type rel = relation" and "keep_relation T rel"
    and "\<forall>m\<in>set (members rel).
           \<not> keep_member T (RelationMeta_at (committed (m_relations_buffer c))) m"
  shows "add_relation T c rel = Some c \<and> pass1_object T c rel = Some c"
  using assms(2,3)
  by (simp add: pass1_object_def add_relation_eq [OF assms(1)]
        add_members_none_kept [OF assms(4)] has_all_members_def)

theorem rollback_when_no_member_kept_witness:
  "add_relation ((default_hooks False True False)\<lparr>keep_member := (\<lambda>_ _. False)\<rparr>)
       Collector_new (mk_relation 20 [mk_member way 10 ''outer'']) = Some Collector_new
   \<and> pass1_object ((default_hooks False True False)\<lparr>keep_member := (\<lambda>_ _. False)\<rparr>)
       Collector_new (mk_relation 20 [mk_member way 10 ''outer'']) = Some Collector_new"
  by (rule rollback_when_no_member_kept)
     (simp_all add: Collector_new_def Buffer_new_def mk_relation_def default_hooks_def)

subsection \<open>The scenario of the test input\<close>

lemmas mk_defs = mk_member_def mk_relation_def mk_way_def fill_relations_def fill_ways_def
  fill_buffer_def

lemma sort_spec_Nil: "sort_spec std_sort \<Longrightarrow> std_sort [] = []"
  by (metis mset_zero_iff sort_spec_def)

lemma MemberMeta_new_eq [simp]:
  "MemberMeta_new a b c = MemberMeta_new a' b' c' \<longleftrightarrow> a = a' \<and> b = b' \<and> c = c'"
  by (auto simp: MemberMeta_new_def)

lemma MemberMeta_new_sel [simp]:
  "member_id (MemberMeta_new a b c) = a" "relation_pos (MemberMeta_new a b c) = b"
  "member_pos (MemberMeta_new a b c) = c" "buffer_offset (MemberMeta_new a b c) = 0"
  "removed (MemberMeta_new a b c) = False"
  by (simp_all add: MemberMeta_new_def)

lemma S1_sort_cases:
  assumes "sort_spec std_sort"
  shows "std_sort S1_metas = S1_sorted False \<or> std_sort S1_metas = S1_sorted True"
proof -
  let ?ys = "std_sort S1_metas"
  from assms have m: "mset ?ys = mset S1_metas" and s: "sorted (map member_id ?ys)"
    by (simp_all add: sort_spec_def)
  have "mset (map member_id ?ys) = mset (map member_id S1_metas)"
    using m by (metis mset_map)
  from properties_for_sort [OF this s]
  have k: "map member_id ?ys = [10, 10, 11, 12, 13, 14]"
    by (simp add: S1_metas_def)
  then obtain a b c d e f where ys: "?ys = [a, b, c, d, e, f]"
    and ids: "member_id a = 10" "member_id b = 10" "member_id c = 11" "member_id d = 12"
      "member_id e = 13" "member_id f = 14"
    by (auto simp: map_eq_Cons_conv)
  from m have st: "set ?ys = set S1_metas" by (rule mset_eq_setD)
  have el: "\<And>x. x \<in> set S1_metas \<Longrightarrow>
       (member_id x = 10 \<longrightarrow> x = MemberMeta_new 10 0 0 \<or> x = MemberMeta_new 10 2 1)
     \<and> (member_id x = 11 \<longrightarrow> x = MemberMeta_new 11 1 0)
     \<and> (member_id x = 12 \<longrightarrow> x = MemberMeta_new 12 1 1)
     \<and> (member_id x = 13 \<longrightarrow> x = MemberMeta_new 13 2 0)
     \<and> (member_id x = 14 \<longrightarrow> x = MemberMeta_new 14 2 2)"
    unfolding S1_metas_def by auto
  have mem: "a \<in> set S1_metas" "b \<in> set S1_metas" "c \<in> set S1_metas" "d \<in> set S1_metas"
    "e \<in> set S1_metas" "f \<in> set S1_metas"
    using st unfolding ys by auto
  have r: "c = MemberMeta_new 11 1 0" "d = MemberMeta_new 12 1 1" "e = MemberMeta_new 13 2 0"
    "f = MemberMeta_new 14 2 2"
    using el [OF mem(3)] el [OF mem(4)] el [OF mem(5)] el [OF mem(6)] ids by simp_all
  have ab: "a = MemberMeta_new 10 0 0 \<or> a = MemberMeta_new 10 2 1"
    "b = MemberMeta_new 10 0 0 \<or> b = MemberMeta_new 10 2 1"
    using el [OF mem(1)] el [OF mem(2)] ids by simp_all
  have "count (mset [a, b, c, d, e, f]) a = count (mset S1_metas) a" using m ys by simp
  then have "a \<noteq> b" using ab(1) unfolding r S1_metas_def by auto
  with ab show ?thesis unfolding ys r S1_sorted_def by auto
qed


lemma S1_apply_pass1:
  "apply_pass1 (default_hooks n w r) Collector_new fill_buffer =
     Some \<lparr>m_relations_buffer = \<lparr>items = fill_relations, committed = 3\<rparr>,
      m_members_buffer = Buffer_new,
      m_relations = [\<lparr>relation_offset = 0, need_members = 1\<rparr>,
                     \<lparr>relation_offset = 1, need_members = 2\<rparr>,
                     \<lparr>relation_offset = 2, need_members = 3\<rparr>],
      m_member_meta = (\<lambda>_. [])(way := S1_metas),
      m_count_complete = 0, calls = []\<rparr>"
  by (simp add: mk_defs pass1_object_def default_hooks_def add_relation_def Let_def
        Collector_new_def Buffer_new_def add_item_def get_def RelationMeta_at_def
        increment_need_members_def has_all_members_def commit_def rollback_def S1_metas_def
        numeral_2_eq_2)

lemma S1_read_relations:
  assumes "sort_spec std_sort"
  shows "\<exists>swap. read_relations std_sort (default_hooks n w r) Collector_new fill_buffer
           = Some (S1_pass1 swap)"
proof -
  from S1_sort_cases [OF assms] obtain swap where s: "std_sort S1_metas = S1_sorted swap"
    by blast
  have "(\<lambda>type. std_sort (((\<lambda>_. [])(way := S1_metas)) type)) = (\<lambda>_. [])(way := S1_sorted swap)"
    by (auto simp: fun_eq_iff s sort_spec_Nil [OF assms])
  then show ?thesis
    by (auto simp: read_relations_def S1_apply_pass1 sort_member_meta_def S1_pass1_def)
qed

lemmas pass2_defs = pass2_object_def handle_object_def find_and_add_object_def
  find_member_meta_def equal_range_def lower_bound_def upper_bound_def count_not_removed_def
  store_member_def commit_def add_item_def set_member_meta_def set_buffer_offset_def
  get_relation_of_meta_def get_relation_def get_def got_one_member_def has_all_members_def
  log_call_def clear_member_metas_def set_member_removed_def get_member_def
  get_relation_of_member_def remove_mm_def possibly_purge_removed_members_def
  RelationMeta_default_def Let_def

lemma S1_run:
  "map (\<lambda>k. map_option calls
            (apply_pass2 (default_hooks n True r) (S1_pass1 swap) (take k fill_ways)))
       [0..<7]
   = (let i = (if swap then 1 else 0);
          r20 = complete_relation i 0 \<lparr>relation_offset = 0, need_members = 0\<rparr>;
          r21 = complete_relation 3 1 \<lparr>relation_offset = 1, need_members = 0\<rparr>;
          r22 = complete_relation 5 2 \<lparr>relation_offset = 2, need_members = 0\<rparr>
      in [Some [], Some [r20], Some [r20], Some [r20, r21], Some [r20, r21],
          Some [r20, r21, r22],
          Some [r20, r21, r22, way_not_in_any_relation (mk_way 15)]])"
  by (cases swap)
     (simp_all add: upt_rec [of _ 7] S1_pass1_def S1_sorted_def mk_defs default_hooks_def
        Buffer_new_def pass2_defs numeral_eq_Suc)

lemma S1_way15:
  "Option.bind (apply_pass2 (default_hooks n True r) (S1_pass1 swap) (take 5 fill_ways))
     (\<lambda>c. map_option fst (find_and_add_object c (mk_way 15))) = Some False"
  by (cases swap)
     (simp_all add: S1_pass1_def S1_sorted_def mk_defs default_hooks_def
        Buffer_new_def pass2_defs numeral_eq_Suc)

text \<open>
  C1. For the input of the test (relation 20 with way 10; relation 21 with ways 11
  and 12; relation 22 with ways 13, 10, 14; everything kept), whatever order the
  sort leaves equal ids in: the relations are stored at offsets 0, 1, 2; after each
  of the ways 10, 11, 12, 13, 14, 15 the calls made so far are: relation 20 after
  way 10, nothing more after way 11, relation 21 after way 12, nothing more after
  way 13, relation 22 after way 14, and \<open>way_not_in_any_relation\<close> after way 15,
  for which \<open>find_and_add_object\<close> returns false. No other call is made.
\<close>

theorem S1_completions:
  assumes "sort_spec std_sort"
  shows "\<exists>c1 i. read_relations std_sort (default_hooks n True r) Collector_new fill_buffer
                  = Some c1
     \<and> map obj_id (committed_items (m_relations_buffer c1)) = [20, 21, 22]
     \<and> i < 2
     \<and> map (\<lambda>k. map_option calls
                (apply_pass2 (default_hooks n True r) c1 (take k fill_ways))) [0..<7]
        = (let r20 = complete_relation i 0 \<lparr>relation_offset = 0, need_members = 0\<rparr>;
               r21 = complete_relation 3 1 \<lparr>relation_offset = 1, need_members = 0\<rparr>;
               r22 = complete_relation 5 2 \<lparr>relation_offset = 2, need_members = 0\<rparr>
           in [Some [], Some [r20], Some [r20], Some [r20, r21], Some [r20, r21],
               Some [r20, r21, r22],
               Some [r20, r21, r22, way_not_in_any_relation (mk_way 15)]])
     \<and> Option.bind (apply_pass2 (default_hooks n True r) c1 (take 5 fill_ways))
          (\<lambda>c. map_option fst (find_and_add_object c (mk_way 15))) = Some False"
proof -
  from S1_read_relations [OF assms, of n True r] obtain swap where
    p: "read_relations std_sort (default_hooks n True r) Collector_new fill_buffer
          = Some (S1_pass1 swap)"
    by blast
  show ?thesis
  proof (intro exI conjI)
    show "read_relations std_sort (default_hooks n True r) Collector_new fill_buffer
            = Some (S1_pass1 swap)"
      by (rule p)
    show "map obj_id (committed_items (m_relations_buffer (S1_pass1 swap))) = [20, 21, 22]"
      by (simp add: S1_pass1_def committed_items_def mk_defs)
    show "(if swap then 1 else 0 :: nat) < 2" by simp
    show "map (\<lambda>k. map_option calls
                (apply_pass2 (default_hooks n True r) (S1_pass1 swap) (take k fill_ways)))
            [0..<7]
        = (let r20 = complete_relation (if swap then 1 else 0) 0
                       \<lparr>relation_offset = 0, need_members = 0\<rparr>;
               r21 = complete_relation 3 1 \<lparr>relation_offset = 1, need_members = 0\<rparr>;
               r22 = complete_relation 5 2 \<lparr>relation_offset = 2, need_members = 0\<rparr>
           in [Some [], Some [r20], Some [r20], Some [r20, r21], Some [r20, r21],
               Some [r20, r21, r22],
               Some [r20, r21, r22, way_not_in_any_relation (mk_way 15)]])"
      using S1_run [of n r swap] unfolding Let_def .
    show "Option.bind (apply_pass2 (default_hooks n True r) (S1_pass1 swap) (take 5 fill_ways))
            (\<lambda>c. map_option fst (find_and_add_object c (mk_way 15))) = Some False"
      by (rule S1_way15)
  qed
qed

theorem S1_completions_witness:
  "\<exists>c1 i. read_relations (sort_key member_id) (default_hooks False True False) Collector_new
              fill_buffer = Some c1
     \<and> map obj_id (committed_items (m_relations_buffer c1)) = [20, 21, 22]
     \<and> i < 2
     \<and> map (\<lambda>k. map_option calls
                (apply_pass2 (default_hooks False True False) c1 (take k fill_ways))) [0..<7]
        = (let r20 = complete_relation i 0 \<lparr>relation_offset = 0, need_members = 0\<rparr>;
               r21 = complete_relation 3 1 \<lparr>relation_offset = 1, need_members = 0\<rparr>;
               r22 = complete_relation 5 2 \<lparr>relation_offset = 2, need_members = 0\<rparr>
           in [Some [], Some [r20], Some [r20], Some [r20, r21], Some [r20, r21],
               Some [r20, r21, r22],
               Some [r20, r21, r22, way_not_in_any_relation (mk_way 15)]])
     \<and> Option.bind (apply_pass2 (default_hooks False True False) c1 (take 5 fill_ways))
          (\<lambda>c. map_option fst (find_and_add_object c (mk_way 15))) = Some False"
  using S1_completions [OF sort_key_spec] .

subsection \<open>Equal ranges and relocation\<close>

lemma lower_le_upper: "lower_bound v x \<le> upper_bound v x"
  unfolding lower_bound_def upper_bound_def by (induction v) auto

lemma upper_le_length: "upper_bound v x \<le> length v"
  unfolding upper_bound_def by (rule length_takeWhile_le)

lemma lower_bound_sorted:
  "sorted (map member_id v) \<Longrightarrow> i < length v \<Longrightarrow>
     (i < lower_bound v x \<longleftrightarrow> member_id (v ! i) < x)"
  unfolding lower_bound_def
proof (induction v arbitrary: i)
  case Nil
  then show ?case by simp
next
  case (Cons a v)
  show ?case
  proof (cases i)
    case 0
    then show ?thesis by simp
  next
    case (Suc k)
    with Cons.prems have k: "k < length v" and "v ! k \<in> set v" by simp_all
    with Cons.prems(1) have le: "member_id a \<le> member_id (v ! k)" by simp
    from Cons.prems(1) have "sorted (map member_id v)" by simp
    from Cons.IH [OF this k] le Suc show ?thesis by auto
  qed
qed

lemma upper_bound_sorted:
  "sorted (map member_id v) \<Longrightarrow> i < length v \<Longrightarrow>
     (i < upper_bound v x \<longleftrightarrow> member_id (v ! i) \<le> x)"
  unfolding upper_bound_def
proof (induction v arbitrary: i)
  case Nil
  then show ?case by simp
next
  case (Cons a v)
  show ?case
  proof (cases i)
    case 0
    then show ?thesis by simp
  next
    case (Suc k)
    with Cons.prems have k: "k < length v" and "v ! k \<in> set v" by simp_all
    with Cons.prems(1) have le: "member_id a \<le> member_id (v ! k)" by simp
    from Cons.prems(1) have "sorted (map member_id v)" by simp
    from Cons.IH [OF this k] le Suc show ?thesis by auto
  qed
qed

lemma equal_range_sorted:
  assumes "sorted (map member_id v)" and "i < length v"
  shows "(lower_bound v x \<le> i \<and> i < upper_bound v x) \<longleftrightarrow> member_id (v ! i) = x"
  using lower_bound_sorted [OF assms, of x] upper_bound_sorted [OF assms, of x] by auto

lemma move_offsets_upt:
  "move_offsets v [lo..<hi] old new = Some v' \<Longrightarrow> hi \<le> length v \<Longrightarrow>
     length v' = length v
     \<and> (\<forall>j<length v. v' ! j = (if lo \<le> j \<and> j < hi then set_buffer_offset new (v ! j) else v ! j))
     \<and> (\<forall>j. lo \<le> j \<and> j < hi \<longrightarrow> buffer_offset (v ! j) = old)"
proof (induction "hi - lo" arbitrary: lo v)
  case 0
  then show ?case by auto
next
  case (Suc k)
  then have lt: "lo < hi" by simp
  let ?v1 = "v[lo := set_buffer_offset new (v ! lo)]"
  from Suc.prems(1) lt have o: "buffer_offset (v ! lo) = old"
    and r: "move_offsets ?v1 [Suc lo..<hi] old new = Some v'"
    by (auto simp: upt_conv_Cons split: if_splits)
  from Suc.hyps(2) have k: "k = hi - Suc lo" by simp
  from Suc.hyps(1) [OF k r] Suc.prems(2)
  have ih: "length v' = length v"
    "\<forall>j<length v. v' ! j = (if Suc lo \<le> j \<and> j < hi then set_buffer_offset new (?v1 ! j) else ?v1 ! j)"
    "\<forall>j. Suc lo \<le> j \<and> j < hi \<longrightarrow> buffer_offset (?v1 ! j) = old"
    by simp_all
  have a: "\<forall>j<length v. v' ! j = (if lo \<le> j \<and> j < hi then set_buffer_offset new (v ! j) else v ! j)"
  proof (intro allI impI)
    fix j assume j: "j < length v"
    show "v' ! j = (if lo \<le> j \<and> j < hi then set_buffer_offset new (v ! j) else v ! j)"
      using ih(2) j lt by (cases "j = lo") auto
  qed
  have b: "\<forall>j. lo \<le> j \<and> j < hi \<longrightarrow> buffer_offset (v ! j) = old"
  proof (intro allI impI)
    fix j assume j: "lo \<le> j \<and> j < hi"
    show "buffer_offset (v ! j) = old"
      using ih(3) j o by (cases "j = lo") auto
  qed
  from ih(1) a b show ?case by blast
qed


lemma retarget_ids [simp]: "map member_id (retarget x new v) = map member_id v"
  by (induction v) (auto simp: retarget_def set_buffer_offset_def)


















subsection \<open>The second loop of find-and-add\<close>

lemma keeps_keys_refl [simp]: "keeps_keys v v"
  by (simp add: keeps_keys_def list_all2_refl)

lemma keeps_keys_trans:
  assumes "keeps_keys v v1" and "keeps_keys v1 v2"
  shows "keeps_keys v v2"
  unfolding keeps_keys_def
  by (rule list_all2_trans [OF _ assms(1) [unfolded keeps_keys_def]
        assms(2) [unfolded keeps_keys_def]]) simp

lemma keeps_keys_length: "keeps_keys v v' \<Longrightarrow> length v' = length v"
  by (simp add: keeps_keys_def list_all2_lengthD)

lemma keeps_keys_nth:
  assumes "keeps_keys v v'" and "j < length v"
  shows "member_id (v' ! j) = member_id (v ! j)" "relation_pos (v' ! j) = relation_pos (v ! j)"
    "member_pos (v' ! j) = member_pos (v ! j)" "removed (v ! j) \<Longrightarrow> removed (v' ! j)"
  using list_all2_nthD [OF assms [unfolded keeps_keys_def]] by simp_all

lemma keeps_keys_update:
  assumes "member_id b = member_id (v ! i)" "relation_pos b = relation_pos (v ! i)"
    "member_pos b = member_pos (v ! i)" "removed (v ! i) \<longrightarrow> removed b"
  shows "keeps_keys v (v[i := b])"
proof (cases "i < length v")
  case True
  have "list_all2 (\<lambda>a b. member_id b = member_id a \<and> relation_pos b = relation_pos a
                    \<and> member_pos b = member_pos a \<and> (removed a \<longrightarrow> removed b)) (v[i := v ! i]) (v[i := b])"
    by (rule list_all2_update_cong) (use assms in \<open>simp_all add: list_all2_refl\<close>)
  then show ?thesis by (simp add: keeps_keys_def)
next
  case False
  then show ?thesis by (simp add: list_update_beyond not_less)
qed

lemma pass2_frame_refl [simp]: "pass2_frame c c"
  by (simp add: pass2_frame_def)

lemma pass2_frame_trans:
  assumes "pass2_frame c c1" and "pass2_frame c1 c2"
  shows "pass2_frame c c2"
proof -
  have "keeps_keys (m_member_meta c t) (m_member_meta c2 t)" for t
    using assms keeps_keys_trans [of "m_member_meta c t" "m_member_meta c1 t" "m_member_meta c2 t"]
    by (simp add: pass2_frame_def)
  with assms show ?thesis by (simp add: pass2_frame_def)
qed

lemma completions_append [simp]: "completions (xs @ ys) = completions xs @ completions ys"
  by (induction xs rule: completions.induct) simp_all

lemma move_offsets_keys:
  "move_offsets v is old new = Some v' \<Longrightarrow> keeps_keys v v'"
proof (induction "is" arbitrary: v)
  case Nil
  then show ?case by simp
next
  case (Cons i "is")
  let ?v1 = "v[i := set_buffer_offset new (v ! i)]"
  from Cons.prems have "move_offsets ?v1 is old new = Some v'"
    by (simp split: if_splits)
  from Cons.IH [OF this] have "keeps_keys ?v1 v'" .
  moreover have "keeps_keys v ?v1"
    by (rule keeps_keys_update) (simp_all add: set_buffer_offset_def)
  ultimately show ?case by (rule keeps_keys_trans [rotated])
qed

lemma moving_in_buffer_pass2_frame:
  "moving_in_buffer c old new = Some c' \<Longrightarrow> pass2_frame c c'"
  by (auto simp: moving_in_buffer_def Let_def pass2_frame_def set_member_meta_def
        split: option.splits dest: move_offsets_keys)

lemma purge_moves_pass2_frame:
  "purge_moves c rds wr = Some c' \<Longrightarrow> pass2_frame c c'"
proof (induction rds arbitrary: c wr)
  case Nil
  then show ?case by simp
next
  case (Cons rd rds)
  from Cons.prems obtain item where g: "get (m_members_buffer c) rd = Some item"
    by (auto split: option.splits)
  show ?case
  proof (cases "removed_flag item \<or> rd = wr")
    case True
    with g Cons.prems obtain wr' where "purge_moves c rds wr' = Some c'"
      by (auto split: if_splits)
    then show ?thesis by (rule Cons.IH)
  next
    case False
    with g Cons.prems obtain c1 where
      m: "moving_in_buffer c rd wr = Some c1" and p: "purge_moves c1 rds (wr + 1) = Some c'"
      by (auto split: option.splits)
    from moving_in_buffer_pass2_frame [OF m] Cons.IH [OF p] show ?thesis
      by (rule pass2_frame_trans)
  qed
qed

lemma purge_removed_pass2_frame:
  "purge_removed c = Some c' \<Longrightarrow> pass2_frame c c'"
  unfolding purge_removed_def
  by (auto split: option.splits dest!: purge_moves_pass2_frame simp: pass2_frame_def)

lemma possibly_purge_pass2_frame:
  "possibly_purge_removed_members c = Some c' \<Longrightarrow> pass2_frame c c'"
  unfolding possibly_purge_removed_members_def Let_def
  by (auto split: if_splits option.splits dest!: purge_removed_pass2_frame
        simp: pass2_frame_def log_call_def)

lemma remove_first_pass2_frame:
  "remove_first c rid t is = Some c' \<Longrightarrow> pass2_frame c c'"
proof (induction "is")
  case Nil
  then show ?case by simp
next
  case (Cons i "is")
  let ?mm = "m_member_meta c t ! i"
  show ?case
  proof (cases "removed ?mm")
    case True
    with Cons show ?thesis by simp
  next
    case False
    with Cons.prems obtain r where r: "get_relation_of_member c ?mm = Some r"
      by (auto simp: Let_def split: option.splits)
    show ?thesis
    proof (cases "rid = obj_id r")
      case True
      with False r Cons.prems
      have c': "c' = set_member_meta c t ((m_member_meta c t)[i := remove_mm ?mm])"
        by (simp add: Let_def)
      have "keeps_keys (m_member_meta c t) ((m_member_meta c t)[i := remove_mm ?mm])"
        by (rule keeps_keys_update) (simp_all add: remove_mm_def)
      then show ?thesis by (simp add: c' pass2_frame_def set_member_meta_def)
    next
      case ne: False
      with False r Cons show ?thesis by (simp add: Let_def)
    qed
  qed
qed

lemma set_member_removed_pass2_frame:
  "set_member_removed c offset = Some c' \<Longrightarrow> pass2_frame c c'"
  by (auto simp: set_member_removed_def pass2_frame_def split: option.splits)

lemma clear_members_pass2_frame:
  "clear_members c rel ms = Some c' \<Longrightarrow> pass2_frame c c'"
proof (induction ms arbitrary: c)
  case Nil
  then show ?case by simp
next
  case (Cons m ms)
  show ?case
  proof (cases "ref m = 0")
    case True
    with Cons show ?thesis by simp
  next
    case False
    let ?t = "member_type m"
    let ?rng = "find_member_meta c ?t (ref m)"
    from False Cons.prems obtain c1 c2 where
      s: "(if count_not_removed (m_member_meta c ?t) ?rng = 1
           then set_member_removed c (buffer_offset (m_member_meta c ?t ! fst ?rng))
           else Some c) = Some c1"
      and r: "remove_first c1 (obj_id rel) ?t [fst ?rng..<snd ?rng] = Some c2"
      and k: "clear_members c2 rel ms = Some c'"
      by (auto simp: Let_def split: if_splits option.splits)
    from s have "pass2_frame c c1"
      by (auto split: if_splits dest: set_member_removed_pass2_frame)
    from pass2_frame_trans [OF this remove_first_pass2_frame [OF r]] Cons.IH [OF k]
    show ?thesis by (rule pass2_frame_trans)
  qed
qed

lemma clear_member_metas_pass2_frame:
  "clear_member_metas c rm = Some c' \<Longrightarrow> pass2_frame c c'"
  unfolding clear_member_metas_def
  by (auto split: option.splits dest: clear_members_pass2_frame)

lemma hits_empty [simp]: "hits v i0 i0 p = 0"
  by (simp add: hits_def)

lemma hits_step:
  "i0 < k \<Longrightarrow> hits v i0 k p = (if relation_pos (v ! i0) = p then 1 else 0) + hits v (Suc i0) k p"
  by (simp add: hits_def upt_conv_Cons)

lemma hits_cong:
  assumes "keeps_keys v v'" and "k \<le> length v"
  shows "hits v' i0 k p = hits v i0 k p"
proof -
  have "filter (\<lambda>i. relation_pos (v' ! i) = p) [i0..<k] = filter (\<lambda>i. relation_pos (v ! i) = p) [i0..<k]"
    by (rule filter_cong) (use assms keeps_keys_nth(2) in auto)
  then show ?thesis by (simp add: hits_def)
qed

lemma notify_post_break:
  "i0 \<le> hi \<Longrightarrow> (i0 < hi \<longrightarrow> removed (m_member_meta c t ! i0)) \<Longrightarrow>
     notify_post c t x i0 hi c i0 []"
  by (auto simp: notify_post_def)

lemma notify_post_step:
  assumes lt: "i0 < hi" and hi: "hi \<le> length (m_member_meta c t)"
    and nr: "\<not> removed (m_member_meta c t ! i0)"
    and id: "member_id (m_member_meta c t ! i0) = x"
    and pos: "relation_pos (m_member_meta c t ! i0) < length (m_relations c)"
    and rb: "m_relations_buffer c4 = m_relations_buffer c"
    and kk: "\<And>t'. keeps_keys (m_member_meta c t') (m_member_meta c4 t')"
    and len: "length (m_relations c4) = length (m_relations c)"
    and need: "\<And>p. p < length (m_relations c) \<Longrightarrow>
         need_members (m_relations c4 ! p)
         = need_members (m_relations c ! p)
           - (if relation_pos (m_member_meta c t ! i0) = p then 1 else 0)"
    and ev: "completions (calls c4) = completions (calls c) @ e0"
    and e0: "e0 = [] \<or> (e0 = [(i0, relation_pos (m_member_meta c t ! i0))]
               \<and> need_members (m_relations c ! relation_pos (m_member_meta c t ! i0)) = 1)"
    and post: "notify_post c4 t x (Suc i0) hi c' k ks"
  shows "notify_post c t x i0 hi c' k (e0 @ ks)"
proof -
  let ?v = "m_member_meta c t" and ?v4 = "m_member_meta c4 t"
  note p = post [unfolded notify_post_def]
  from p have k: "Suc i0 \<le> k" "k \<le> hi" by simp_all
  have kl: "k \<le> length ?v" using k hi by simp
  have kk4: "keeps_keys ?v ?v4" by (rule kk)
  have 1: "i0 \<le> k \<and> k \<le> hi" using k by simp
  have 2: "m_relations_buffer c' = m_relations_buffer c" using p rb by simp
  have 3: "\<forall>t'. keeps_keys (m_member_meta c t') (m_member_meta c' t')"
    using p kk keeps_keys_trans by blast
  have 4: "length (m_relations c') = length (m_relations c)" using p len by simp
  have 5: "\<forall>p<length (m_relations c).
            need_members (m_relations c' ! p)
            = need_members (m_relations c ! p) - int (hits ?v i0 k p)"
  proof (intro allI impI)
    fix q assume q: "q < length (m_relations c)"
    from p q len have "need_members (m_relations c' ! q)
        = need_members (m_relations c4 ! q) - int (hits ?v4 (Suc i0) k q)"
      by simp
    also have "hits ?v4 (Suc i0) k q = hits ?v (Suc i0) k q"
      by (rule hits_cong [OF kk4 kl])
    finally show "need_members (m_relations c' ! q)
        = need_members (m_relations c ! q) - int (hits ?v i0 k q)"
      using need [OF q] hits_step [of i0 k ?v q] k by simp
  qed
  have 6: "k < hi \<longrightarrow> removed (m_member_meta c' t ! k)" using p by simp
  have 7: "\<forall>i. i0 \<le> i \<and> i < k \<longrightarrow>
            \<not> removed (?v ! i) \<and> member_id (?v ! i) = x
            \<and> relation_pos (?v ! i) < length (m_relations c)"
  proof (intro allI impI)
    fix i assume i: "i0 \<le> i \<and> i < k"
    show "\<not> removed (?v ! i) \<and> member_id (?v ! i) = x
            \<and> relation_pos (?v ! i) < length (m_relations c)"
    proof (cases "i = i0")
      case True
      with nr id pos show ?thesis by simp
    next
      case False
      with i have i': "Suc i0 \<le> i \<and> i < k" by simp
      with kl have il: "i < length ?v" by simp
      from p i' have "\<not> removed (?v4 ! i)" "member_id (?v4 ! i) = x"
        "relation_pos (?v4 ! i) < length (m_relations c4)"
        by simp_all
      with keeps_keys_nth [OF kk4 il] len show ?thesis by auto
    qed
  qed
  have 8: "completions (calls c') = completions (calls c) @ e0 @ ks"
    using p ev by simp
  have ks: "\<forall>e\<in>set ks. Suc i0 \<le> fst e \<and> fst e < k
            \<and> snd e = relation_pos (?v4 ! fst e)
            \<and> need_members (m_relations c4 ! snd e)
                = int (hits ?v4 (Suc i0) (Suc (fst e)) (snd e))"
    using p by blast
  have 9: "sorted_wrt (<) (map fst (e0 @ ks))"
    using p e0 ks by (auto simp: sorted_wrt_append)
  have 10: "\<forall>e\<in>set (e0 @ ks). i0 \<le> fst e \<and> fst e < k \<and> snd e = relation_pos (?v ! fst e)
              \<and> need_members (m_relations c ! snd e) = int (hits ?v i0 (Suc (fst e)) (snd e))"
  proof
    fix e assume "e \<in> set (e0 @ ks)"
    then consider "e \<in> set e0" | "e \<in> set ks" by auto
    then show "i0 \<le> fst e \<and> fst e < k \<and> snd e = relation_pos (?v ! fst e)
              \<and> need_members (m_relations c ! snd e) = int (hits ?v i0 (Suc (fst e)) (snd e))"
    proof cases
      case 1
      with e0 k show ?thesis by (auto simp: hits_step)
    next
      case 2
      with ks have e: "Suc i0 \<le> fst e" "fst e < k" "snd e = relation_pos (?v4 ! fst e)"
        "need_members (m_relations c4 ! snd e) = int (hits ?v4 (Suc i0) (Suc (fst e)) (snd e))"
        by blast+
      with kl have el: "fst e < length ?v" "Suc (fst e) \<le> length ?v" by simp_all
      have se: "snd e = relation_pos (?v ! fst e)"
        using keeps_keys_nth(2) [OF kk4 el(1)] e by simp
      have sl: "snd e < length (m_relations c)"
        using 7 e(1,2) se by simp
      have "hits ?v4 (Suc i0) (Suc (fst e)) (snd e) = hits ?v (Suc i0) (Suc (fst e)) (snd e)"
        by (rule hits_cong [OF kk4 el(2)])
      with e(4) need [OF sl] hits_step [of i0 "Suc (fst e)" ?v "snd e"] e(1)
      have "need_members (m_relations c ! snd e) = int (hits ?v i0 (Suc (fst e)) (snd e))"
        by (cases "relation_pos (?v ! i0) = snd e") simp_all
      with e se show ?thesis by simp
    qed
  qed
  from 1 2 3 4 5 6 7 8 9 10 show ?thesis
    unfolding notify_post_def by blast
qed

lemma notify_relations_post:
  assumes "notify_relations c object [i0..<hi] = Some c'" and "i0 \<le> hi"
    and "hi \<le> length (m_member_meta c (obj_type object))"
  shows "\<exists>k ks. notify_post c (obj_type object) (obj_id object) i0 hi c' k ks"
  using assms
proof (induction "hi - i0" arbitrary: i0 c)
  case 0
  then have "c' = c" by simp
  with notify_post_break [of i0 hi c "obj_type object" "obj_id object"] "0.hyps" "0.prems"(2)
  show ?case by auto
next
  case (Suc n)
  let ?t = "obj_type object" and ?x = "obj_id object"
  let ?v = "m_member_meta c ?t"
  let ?mm = "?v ! i0"
  let ?pos = "relation_pos ?mm"
  from Suc.hyps(2) have lt: "i0 < hi" and n: "n = hi - Suc i0" by simp_all
  from Suc.prems(1) lt have eq: "notify_relations c object (i0 # [Suc i0..<hi]) = Some c'"
    by (simp add: upt_conv_Cons)
  show ?case
  proof (cases "removed ?mm")
    case True
    with eq have "c' = c" by simp
    with notify_post_break [of i0 hi c ?t ?x] True Suc.prems(2) show ?thesis by auto
  next
    case nr: False
    from eq nr have id: "member_id ?mm = ?x" and pos: "?pos < length (m_relations c)"
      by (auto simp: Let_def split: if_splits)
    let ?rm = "m_relations c ! ?pos"
    let ?rm1 = "got_one_member ?rm"
    let ?c1 = "c\<lparr>m_relations := (m_relations c)[?pos := ?rm1]\<rparr>"
    show ?thesis
    proof (cases "has_all_members ?rm1")
      case False
      with eq nr id pos have r: "notify_relations ?c1 object [Suc i0..<hi] = Some c'"
        by (auto simp: Let_def split: if_splits option.splits)
      from Suc.hyps(1) [OF n r] lt Suc.prems(3)
      obtain k ks where post: "notify_post ?c1 ?t ?x (Suc i0) hi c' k ks" by auto
      have "notify_post c ?t ?x i0 hi c' k ([] @ ks)"
      proof (rule notify_post_step [OF lt Suc.prems(3) nr id pos _ _ _ _ _ _ post])
        show "\<And>p. p < length (m_relations c) \<Longrightarrow>
           need_members (m_relations ?c1 ! p)
           = need_members (m_relations c ! p) - (if ?pos = p then 1 else 0)"
          by (simp add: nth_list_update got_one_member_def)
      qed simp_all
      then show ?thesis by auto
    next
      case True
      let ?c2 = "log_call ?c1 (complete_relation i0 ?pos ?rm1)"
      from eq nr id pos True obtain c3 c4 where
        cl: "clear_member_metas ?c2 ?rm1 = Some c3"
        and pp: "possibly_purge_removed_members
                   (c3\<lparr>m_relations := (m_relations c3)[?pos := RelationMeta_default]\<rparr>) = Some c4"
        and r: "notify_relations c4 object [Suc i0..<hi] = Some c'"
        by (auto simp: Let_def split: if_splits option.splits)
      let ?c3' = "c3\<lparr>m_relations := (m_relations c3)[?pos := RelationMeta_default]\<rparr>"
      note f1 = clear_member_metas_pass2_frame [OF cl, unfolded pass2_frame_def]
      note f2 = possibly_purge_pass2_frame [OF pp, unfolded pass2_frame_def]
      have kk: "keeps_keys (m_member_meta c t') (m_member_meta c4 t')" for t'
      proof -
        have "keeps_keys (m_member_meta c t') (m_member_meta c3 t')"
          using f1 by (simp add: log_call_def)
        moreover have "keeps_keys (m_member_meta c3 t') (m_member_meta c4 t')"
          using f2 by simp
        ultimately show ?thesis by (rule keeps_keys_trans)
      qed
      have mr: "m_relations c4 = (m_relations c)[?pos := RelationMeta_default]"
        using f1 f2 by (simp add: log_call_def)
      have ev: "completions (calls c4) = completions (calls c) @ [(i0, ?pos)]"
        using f1 f2 by (simp add: log_call_def)
      have rb: "m_relations_buffer c4 = m_relations_buffer c"
        using f1 f2 by (simp add: log_call_def)
      have hl: "hi \<le> length (m_member_meta c4 ?t)"
        using keeps_keys_length [OF kk [of ?t]] Suc.prems(3) by simp
      from Suc.hyps(1) [OF n r _ hl] lt
      obtain k ks where post: "notify_post c4 ?t ?x (Suc i0) hi c' k ks" by auto
      have "notify_post c ?t ?x i0 hi c' k ([(i0, ?pos)] @ ks)"
      proof (rule notify_post_step [OF lt Suc.prems(3) nr id pos rb kk _ _ ev _ post])
        show "length (m_relations c4) = length (m_relations c)" by (simp add: mr)
        show "\<And>p. p < length (m_relations c) \<Longrightarrow>
           need_members (m_relations c4 ! p)
           = need_members (m_relations c ! p) - (if ?pos = p then 1 else 0)"
          using True
          by (auto simp: mr nth_list_update got_one_member_def has_all_members_def
                RelationMeta_default_def)
        show "[(i0, ?pos)] = [] \<or> ([(i0, ?pos)] = [(i0, ?pos)]
                \<and> need_members (m_relations c ! ?pos) = 1)"
          using True by (simp add: got_one_member_def has_all_members_def)
      qed
      then show ?thesis by auto
    qed
  qed
qed

lemma set_offsets_upt:
  "hi \<le> length v \<Longrightarrow>
     length (set_offsets v [lo..<hi] off) = length v
     \<and> (\<forall>j<length v. set_offsets v [lo..<hi] off ! j
           = (if lo \<le> j \<and> j < hi then set_buffer_offset off (v ! j) else v ! j))"
proof (induction "hi - lo" arbitrary: lo v)
  case 0
  then show ?case by auto
next
  case (Suc k)
  then have lt: "lo < hi" and k: "k = hi - Suc lo" by simp_all
  let ?v1 = "v[lo := set_buffer_offset off (v ! lo)]"
  have e: "set_offsets v [lo..<hi] off = set_offsets ?v1 [Suc lo..<hi] off"
    using lt by (simp add: upt_conv_Cons)
  from Suc.hyps(1) [OF k, of ?v1] Suc.prems
  have ih: "length (set_offsets ?v1 [Suc lo..<hi] off) = length v"
    "\<forall>j<length v. set_offsets ?v1 [Suc lo..<hi] off ! j
       = (if Suc lo \<le> j \<and> j < hi then set_buffer_offset off (?v1 ! j) else ?v1 ! j)"
    by simp_all
  have "\<forall>j<length v. set_offsets ?v1 [Suc lo..<hi] off ! j
           = (if lo \<le> j \<and> j < hi then set_buffer_offset off (v ! j) else v ! j)"
  proof (intro allI impI)
    fix j assume j: "j < length v"
    show "set_offsets ?v1 [Suc lo..<hi] off ! j
           = (if lo \<le> j \<and> j < hi then set_buffer_offset off (v ! j) else v ! j)"
      using ih(2) j lt by (cases "j = lo") auto
  qed
  with ih(1) show ?case unfolding e by blast
qed

lemma set_offsets_keys:
  assumes "hi \<le> length v"
  shows "keeps_keys v (set_offsets v [lo..<hi] off)"
    and "\<And>j. j < length v \<Longrightarrow> removed (set_offsets v [lo..<hi] off ! j) = removed (v ! j)"
proof -
  note s = set_offsets_upt [OF assms, of lo off]
  show r: "\<And>j. j < length v \<Longrightarrow> removed (set_offsets v [lo..<hi] off ! j) = removed (v ! j)"
    using s by (simp add: set_buffer_offset_def)
  show "keeps_keys v (set_offsets v [lo..<hi] off)"
    unfolding keeps_keys_def
    by (rule list_all2_all_nthI) (use s in \<open>simp_all add: set_buffer_offset_def\<close>)
qed

lemma store_member_frame:
  "m_relations (store_member c object rng) = m_relations c"
  "m_relations_buffer (store_member c object rng) = m_relations_buffer c"
  "calls (store_member c object rng) = calls c"
  "m_count_complete (store_member c object rng) = m_count_complete c"
  "m_members_buffer (store_member c object rng)
     = \<lparr>items = items (m_members_buffer c) @ [object],
        committed = Suc (length (items (m_members_buffer c)))\<rparr>"
  "m_member_meta (store_member c object rng)
     = (m_member_meta c)(obj_type object :=
          set_offsets (m_member_meta c (obj_type object)) [fst rng..<snd rng]
            (committed (m_members_buffer c)))"
  by (simp_all add: store_member_def commit_def add_item_def set_member_meta_def)

lemma find_member_meta_le:
  "fst (find_member_meta c t x) \<le> snd (find_member_meta c t x)"
  "snd (find_member_meta c t x) \<le> length (m_member_meta c t)"
  by (simp_all add: find_member_meta_def equal_range_def lower_le_upper upper_le_length)

lemma find_and_add_object_post:
  assumes f: "find_and_add_object c object = Some (found, c')"
    and n: "count_not_removed (m_member_meta c (obj_type object))
              (find_member_meta c (obj_type object) (obj_id object)) \<noteq> 0"
  shows "found"
    and "\<exists>k ks. notify_post c (obj_type object) (obj_id object)
                   (fst (find_member_meta c (obj_type object) (obj_id object)))
                   (snd (find_member_meta c (obj_type object) (obj_id object))) c' k ks"
proof -
  let ?t = "obj_type object" and ?x = "obj_id object"
  let ?v = "m_member_meta c ?t"
  let ?rng = "find_member_meta c ?t ?x"
  let ?lo = "fst ?rng" and ?hi = "snd ?rng"
  let ?cs = "store_member c object ?rng"
  let ?vs = "m_member_meta ?cs ?t"
  from f n have r: "notify_relations ?cs object [?lo..<?hi] = Some c'" and "found"
    by (auto simp: find_and_add_object_def Let_def)
  then show "found" by simp
  note le = find_member_meta_le [of c ?t ?x]
  note sf = store_member_frame [of c object ?rng]
  note so = set_offsets_keys [OF le(2), where lo = ?lo and off = "committed (m_members_buffer c)"]
  have vs: "?vs = set_offsets ?v [?lo..<?hi] (committed (m_members_buffer c))"
    by (simp add: sf(6))
  have kk: "keeps_keys (m_member_meta c t') (m_member_meta ?cs t')" for t'
    using so(1) by (simp add: sf(6))
  have hl: "?hi \<le> length ?vs" using keeps_keys_length [OF kk [of ?t]] le(2) by simp
  from notify_relations_post [OF r le(1) hl]
  obtain k ks where post: "notify_post ?cs ?t ?x ?lo ?hi c' k ks" by blast
  note p = post [unfolded notify_post_def]
  from p have k: "?lo \<le> k" "k \<le> ?hi" by simp_all
  with le(2) have kl: "k \<le> length ?v" by simp
  have hc: "hits ?vs i0 j p = hits ?v i0 j p" if "j \<le> length ?v" for i0 j p
    by (rule hits_cong [OF kk that])
  have rp: "relation_pos (?vs ! i) = relation_pos (?v ! i)"
    "member_id (?vs ! i) = member_id (?v ! i)"
    "removed (?vs ! i) = removed (?v ! i)" if "i < length ?v" for i
    using keeps_keys_nth [OF kk that] so(2) [OF that] by (simp_all add: vs)
  have mr: "m_relations ?cs = m_relations c" by (rule sf(1))
  have 1: "?lo \<le> k \<and> k \<le> ?hi" using k by simp
  have 2: "m_relations_buffer c' = m_relations_buffer c" using p sf(2) by simp
  have 3: "\<forall>t'. keeps_keys (m_member_meta c t') (m_member_meta c' t')"
    using p kk keeps_keys_trans by blast
  have 4: "length (m_relations c') = length (m_relations c)" using p mr by simp
  have 5: "\<forall>p<length (m_relations c).
            need_members (m_relations c' ! p)
            = need_members (m_relations c ! p) - int (hits ?v ?lo k p)"
  proof (intro allI impI)
    fix q assume q: "q < length (m_relations c)"
    with p mr have "need_members (m_relations c' ! q)
        = need_members (m_relations c ! q) - int (hits ?vs ?lo k q)" by simp
    then show "need_members (m_relations c' ! q)
        = need_members (m_relations c ! q) - int (hits ?v ?lo k q)"
      by (simp only: hc [OF kl])
  qed
  have 6: "k < ?hi \<longrightarrow> removed (m_member_meta c' ?t ! k)" using p by blast
  have 7: "\<forall>i. ?lo \<le> i \<and> i < k \<longrightarrow>
            \<not> removed (?v ! i) \<and> member_id (?v ! i) = ?x
            \<and> relation_pos (?v ! i) < length (m_relations c)"
  proof (intro allI impI)
    fix i assume i: "?lo \<le> i \<and> i < k"
    with kl have il: "i < length ?v" by simp
    from p i have a: "\<not> removed (?vs ! i)" "member_id (?vs ! i) = ?x"
      "relation_pos (?vs ! i) < length (m_relations ?cs)"
      by blast+
    show "\<not> removed (?v ! i) \<and> member_id (?v ! i) = ?x
            \<and> relation_pos (?v ! i) < length (m_relations c)"
      using a unfolding rp [OF il] mr by blast
  qed
  have 8: "completions (calls c') = completions (calls c) @ ks"
    using p sf(3) by simp
  have 9: "sorted_wrt (<) (map fst ks)" using p by blast
  have 10: "\<forall>e\<in>set ks. ?lo \<le> fst e \<and> fst e < k \<and> snd e = relation_pos (?v ! fst e)
              \<and> need_members (m_relations c ! snd e) = int (hits ?v ?lo (Suc (fst e)) (snd e))"
  proof
    fix e assume "e \<in> set ks"
    with p have e: "?lo \<le> fst e" "fst e < k" "snd e = relation_pos (?vs ! fst e)"
      "need_members (m_relations ?cs ! snd e) = int (hits ?vs ?lo (Suc (fst e)) (snd e))"
      by blast+
    with kl have el: "fst e < length ?v" "Suc (fst e) \<le> length ?v" by simp_all
    show "?lo \<le> fst e \<and> fst e < k \<and> snd e = relation_pos (?v ! fst e)
              \<and> need_members (m_relations c ! snd e) = int (hits ?v ?lo (Suc (fst e)) (snd e))"
      using e unfolding rp(1) [OF el(1)] hc [OF el(2)] mr by blast
  qed
  from 1 2 3 4 5 6 7 8 9 10 have "notify_post c ?t ?x ?lo ?hi c' k ks"
    unfolding notify_post_def by blast
  then show "\<exists>k ks. notify_post c ?t ?x ?lo ?hi c' k ks" by blast
qed

lemma store_member_offsets:
  assumes "fst rng \<le> i" and "i < snd rng" and "snd rng \<le> length (m_member_meta c (obj_type object))"
  shows "buffer_offset (m_member_meta (store_member c object rng) (obj_type object) ! i)
         = committed (m_members_buffer c)"
proof -
  from assms have "i < length (m_member_meta c (obj_type object))" by simp
  with set_offsets_upt [OF assms(3), where lo = "fst rng"
         and off = "committed (m_members_buffer c)"] assms(1,2)
  show ?thesis by (simp add: store_member_frame(6) set_buffer_offset_def)
qed

lemmas dup_defs = dup_relations_def dup_pass1_def dup_once_def mk_member_def mk_relation_def
  mk_way_def

lemma dup_read_relations:
  "read_relations (sort_key member_id) (default_hooks False True False) Collector_new
     dup_relations = Some dup_pass1"
  by (simp add: read_relations_def sort_member_meta_def dup_defs pass1_object_def
        default_hooks_def add_relation_def Let_def Collector_new_def Buffer_new_def
        add_item_def get_def RelationMeta_at_def increment_need_members_def
        has_all_members_def commit_def rollback_def numeral_2_eq_2 fun_eq_iff)

lemma dup_first_arrival:
  "apply_pass2 (default_hooks False True False) dup_pass1 [mk_way 1] = Some dup_once"
  by (simp add: dup_defs default_hooks_def Buffer_new_def pass2_defs numeral_eq_Suc
        MemberMeta_new_def)

text \<open>
  C3 as stated fails when the equal-range holds a removed record before one that is
  not removed. At the second arrival of way 1 the range holds the removed record of
  relation 30 and then the unremoved record of relation 31; the loop stops at the
  first, so relation 31 keeps \<open>need_members = 1\<close> although its record matches.
\<close>

theorem removed_record_stops_loop_counterexample:
  "read_relations (sort_key member_id) (default_hooks False True False) Collector_new
     dup_relations = Some dup_pass1
   \<and> apply_pass2 (default_hooks False True False) dup_pass1 [mk_way 1] = Some dup_once
   \<and> find_member_meta dup_once way 1 = (0, 2)
   \<and> count_not_removed (m_member_meta dup_once way) (0, 2) = 1
   \<and> map removed (m_member_meta dup_once way) = [True, False, False]
   \<and> map relation_pos (m_member_meta dup_once way) = [0, 1, 1]
   \<and> map need_members (m_relations dup_once) = [0, 1]
   \<and> map_option (\<lambda>r. (fst r, map need_members (m_relations (snd r))))
        (find_and_add_object dup_once (mk_way 1)) = Some (True, [0, 1])"
proof -
  have "find_member_meta dup_once way 1 = (0, 2)"
    "count_not_removed (m_member_meta dup_once way) (0, 2) = 1"
    "map removed (m_member_meta dup_once way) = [True, False, False]"
    "map relation_pos (m_member_meta dup_once way) = [0, 1, 1]"
    "map need_members (m_relations dup_once) = [0, 1]"
    by (simp_all add: dup_once_def find_member_meta_def equal_range_def lower_bound_def
          upper_bound_def count_not_removed_def)
  moreover have "map_option (\<lambda>r. (fst r, map need_members (m_relations (snd r))))
        (find_and_add_object dup_once (mk_way 1)) = Some (True, [0, 1])"
    by (simp add: dup_defs pass2_defs numeral_eq_Suc)
  ultimately show ?thesis using dup_read_relations dup_first_arrival by simp
qed

subsection \<open>Objects that arrive more than once\<close>

lemma hits_le:
  "j \<le> k \<Longrightarrow> hits v i0 j p \<le> hits v i0 k p"
proof (induction k)
  case 0
  then show ?case by simp
next
  case (Suc k)
  show ?case
  proof (cases "j = Suc k")
    case True
    then show ?thesis by simp
  next
    case False
    with Suc have "hits v i0 j p \<le> hits v i0 k p" by simp
    also have "hits v i0 k p \<le> hits v i0 (Suc k) p"
      by (cases "i0 \<le> k") (simp_all add: hits_def)
    finally show ?thesis .
  qed
qed

lemma hits_own:
  "i0 \<le> i \<Longrightarrow> relation_pos (v ! i) = p \<Longrightarrow> hits v i0 (Suc i) p = Suc (hits v i0 i p)"
  by (simp add: hits_def)

lemma notify_post_completed_once:
  assumes post: "notify_post c t x i0 hi c' k ks" and once: "completed_once c"
  shows "completed_once c'"
proof -
  let ?v = "m_member_meta c t"
  let ?old = "completions (calls c)"
  note p = post [unfolded notify_post_def]
  from p have cc: "completions (calls c') = ?old @ ks"
    and len: "length (m_relations c') = length (m_relations c)" by blast+
  from p have need: "\<And>q. q < length (m_relations c) \<Longrightarrow>
      need_members (m_relations c' ! q) = need_members (m_relations c ! q) - int (hits ?v i0 k q)"
    by blast
  have e: "i0 \<le> fst e" "fst e < k" "relation_pos (?v ! fst e) = snd e"
    "snd e < length (m_relations c)"
    "need_members (m_relations c ! snd e) = int (hits ?v i0 (Suc (fst e)) (snd e))"
    if "e \<in> set ks" for e
    using p that by (blast, blast, metis, metis, blast)
  have pos: "1 \<le> need_members (m_relations c ! snd e)" if "e \<in> set ks" for e
    using e [OF that] hits_own [of i0 "fst e" ?v "snd e"] by simp
  from once have o1: "distinct (map snd ?old)"
    and o2: "\<And>q. q \<in> snd ` set ?old \<Longrightarrow>
               q < length (m_relations c) \<and> need_members (m_relations c ! q) \<le> 0"
    by (auto simp: completed_once_def)
  have inj: "inj_on snd (set ks)"
  proof (rule inj_onI)
    fix a b assume a: "a \<in> set ks" and b: "b \<in> set ks" and s: "snd a = snd b"
    have "fst a = fst b"
    proof (rule ccontr)
      assume ne: "fst a \<noteq> fst b"
      have less: False if "a' \<in> set ks" "b' \<in> set ks" "snd a' = snd b'" "fst a' < fst b'"
        for a' b'
      proof -
        have "hits ?v i0 (Suc (fst a')) (snd a') \<le> hits ?v i0 (fst b') (snd a')"
          using that(4) by (intro hits_le) simp
        also have "\<dots> < hits ?v i0 (Suc (fst b')) (snd a')"
          using hits_own [of i0 "fst b'" ?v "snd b'"] e(1,3) [OF that(2)] that(3) by simp
        finally show False using e(5) [OF that(1)] e(5) [OF that(2)] that(3) by simp
      qed
      from ne less [OF a b s] less [OF b a s [symmetric]] show False by force
    qed
    with s show "a = b" by (simp add: prod_eq_iff)
  qed
  have "distinct (map fst ks)"
    using p strict_sorted_iff [of "map fst ks"] by (simp add: sorted_wrt_map) 
  then have "distinct ks" by (simp add: distinct_map)
  with inj have d2: "distinct (map snd ks)" by (simp add: distinct_map)
  have disj: "snd ` set ?old \<inter> snd ` set ks = {}"
  proof (rule ccontr)
    assume "snd ` set ?old \<inter> snd ` set ks \<noteq> {}"
    then obtain q where "q \<in> snd ` set ?old" "q \<in> snd ` set ks" by blast
    then obtain ee where ee: "ee \<in> set ks" "snd ee \<in> snd ` set ?old" by force
    from o2 [OF ee(2)] pos [OF ee(1)] show False by simp
  qed
  have d: "distinct (map snd (?old @ ks))" using o1 d2 disj by simp
  have n: "q < length (m_relations c') \<and> need_members (m_relations c' ! q) \<le> 0"
    if "q \<in> snd ` set (?old @ ks)" for q
  proof -
    from that consider "q \<in> snd ` set ?old" | "q \<in> snd ` set ks" by auto
    then show ?thesis
    proof cases
      case 1
      from o2 [OF 1] need [of q] len show ?thesis by simp
    next
      case 2
      then obtain ee where ee: "ee \<in> set ks" "q = snd ee" by auto
      have "hits ?v i0 (Suc (fst ee)) q \<le> hits ?v i0 k q"
        using e(2) [OF ee(1)] by (intro hits_le) simp
      with e(4,5) [OF ee(1)] need [of q] ee(2) len show ?thesis by simp
    qed
  qed
  from d n show ?thesis unfolding completed_once_def cc by (auto simp: image_Un)
qed

lemma notify_relations_rule:
  assumes run: "notify_relations c object is = Some c'" and q: "Q c"
    and step1: "\<And>c i. \<lbrakk>Q c; \<not> removed (m_member_meta c (obj_type object) ! i);
        relation_pos (m_member_meta c (obj_type object) ! i) < length (m_relations c);
        \<not> has_all_members
            (got_one_member
               (m_relations c ! relation_pos (m_member_meta c (obj_type object) ! i)))\<rbrakk>
      \<Longrightarrow> Q (c\<lparr>m_relations := (m_relations c)
                   [relation_pos (m_member_meta c (obj_type object) ! i) :=
                      got_one_member
                        (m_relations c ! relation_pos (m_member_meta c (obj_type object) ! i))]\<rparr>)"
    and step2: "\<And>c i c3 c4. \<lbrakk>Q c; \<not> removed (m_member_meta c (obj_type object) ! i);
        relation_pos (m_member_meta c (obj_type object) ! i) < length (m_relations c);
        has_all_members
          (got_one_member
             (m_relations c ! relation_pos (m_member_meta c (obj_type object) ! i)));
        clear_member_metas
          (log_call
             (c\<lparr>m_relations := (m_relations c)
                  [relation_pos (m_member_meta c (obj_type object) ! i) :=
                     got_one_member
                       (m_relations c ! relation_pos (m_member_meta c (obj_type object) ! i))]\<rparr>)
             (complete_relation i (relation_pos (m_member_meta c (obj_type object) ! i))
                (got_one_member
                   (m_relations c ! relation_pos (m_member_meta c (obj_type object) ! i)))))
          (got_one_member
             (m_relations c ! relation_pos (m_member_meta c (obj_type object) ! i)))
        = Some c3;
        possibly_purge_removed_members
          (c3\<lparr>m_relations := (m_relations c3)
               [relation_pos (m_member_meta c (obj_type object) ! i) := RelationMeta_default]\<rparr>)
        = Some c4\<rbrakk>
      \<Longrightarrow> Q c4"
  shows "Q c'"
  using run q
proof (induction "is" arbitrary: c)
  case Nil
  then show ?case by simp
next
  case (Cons i "is")
  let ?mm = "m_member_meta c (obj_type object) ! i"
  let ?pos = "relation_pos ?mm"
  let ?rm1 = "got_one_member (m_relations c ! ?pos)"
  let ?c1 = "c\<lparr>m_relations := (m_relations c)[?pos := ?rm1]\<rparr>"
  show ?case
  proof (cases "removed ?mm")
    case True
    with Cons.prems show ?thesis by simp
  next
    case nr: False
    from Cons.prems(1) nr have pos: "?pos < length (m_relations c)"
      by (auto simp: Let_def split: if_splits)
    show ?thesis
    proof (cases "has_all_members ?rm1")
      case False
      with Cons.prems(1) nr pos have r: "notify_relations ?c1 object is = Some c'"
        by (auto simp: Let_def split: if_splits option.splits)
      from Cons.IH [OF r step1 [OF Cons.prems(2) nr pos False]] show ?thesis .
    next
      case True
      with Cons.prems(1) nr pos obtain c3 c4 where
        cl: "clear_member_metas (log_call ?c1 (complete_relation i ?pos ?rm1)) ?rm1 = Some c3"
        and pp: "possibly_purge_removed_members
                   (c3\<lparr>m_relations := (m_relations c3)[?pos := RelationMeta_default]\<rparr>) = Some c4"
        and r: "notify_relations c4 object is = Some c'"
        by (auto simp: Let_def split: if_splits option.splits)
      from Cons.IH [OF r step2 [OF Cons.prems(2) nr pos True cl pp]] show ?thesis .
    qed
  qed
qed

lemma remove_first_members_buffer:
  "remove_first c rid t is = Some c' \<Longrightarrow> m_members_buffer c' = m_members_buffer c"
  by (induction "is")
     (auto simp: Let_def set_member_meta_def split: if_splits option.splits)

lemma set_member_removed_committed:
  "set_member_removed c offset = Some c' \<Longrightarrow> members_committed c \<Longrightarrow> members_committed c'"
  by (auto simp: set_member_removed_def members_committed_def split: option.splits)

lemma clear_members_committed:
  "clear_members c rel ms = Some c' \<Longrightarrow> members_committed c \<Longrightarrow> members_committed c'"
proof (induction ms arbitrary: c)
  case Nil
  then show ?case by simp
next
  case (Cons m ms)
  show ?case
  proof (cases "ref m = 0")
    case True
    with Cons show ?thesis by simp
  next
    case False
    let ?t = "member_type m"
    let ?rng = "find_member_meta c ?t (ref m)"
    from False Cons.prems obtain c1 c2 where
      s: "(if count_not_removed (m_member_meta c ?t) ?rng = 1
           then set_member_removed c (buffer_offset (m_member_meta c ?t ! fst ?rng))
           else Some c) = Some c1"
      and r: "remove_first c1 (obj_id rel) ?t [fst ?rng..<snd ?rng] = Some c2"
      and k: "clear_members c2 rel ms = Some c'"
      by (auto simp: Let_def split: if_splits option.splits)
    from s Cons.prems(2) have "members_committed c1"
      by (auto split: if_splits dest: set_member_removed_committed)
    with remove_first_members_buffer [OF r] have "members_committed c2"
      by (simp add: members_committed_def)
    from Cons.IH [OF k this] show ?thesis .
  qed
qed

lemma clear_member_metas_committed:
  "clear_member_metas c rm = Some c' \<Longrightarrow> members_committed c \<Longrightarrow> members_committed c'"
  unfolding clear_member_metas_def
  by (auto split: option.splits dest: clear_members_committed)

lemma possibly_purge_committed:
  "possibly_purge_removed_members c = Some c' \<Longrightarrow> members_committed c \<Longrightarrow> members_committed c'"
  unfolding possibly_purge_removed_members_def Let_def purge_removed_def
  by (auto simp: members_committed_def compact_def log_call_def Let_def
        split: if_splits option.splits)

lemma notify_relations_committed:
  assumes "notify_relations c object is = Some c'" and "members_committed c"
  shows "members_committed c'"
proof (rule notify_relations_rule [OF assms(1), where Q = members_committed])
  show "members_committed c" by (rule assms(2))
next
  fix c :: Collector and i assume "members_committed c"
  then show "members_committed (c\<lparr>m_relations := (m_relations c)
       [relation_pos (m_member_meta c (obj_type object) ! i) :=
          got_one_member (m_relations c ! relation_pos (m_member_meta c (obj_type object) ! i))]\<rparr>)"
    by (simp add: members_committed_def)
next
  fix c c3 c4 :: Collector and i
  let ?pos = "relation_pos (m_member_meta c (obj_type object) ! i)"
  let ?rm1 = "got_one_member (m_relations c ! ?pos)"
  assume q: "members_committed c"
    and cl: "clear_member_metas
          (log_call (c\<lparr>m_relations := (m_relations c)[?pos := ?rm1]\<rparr>)
             (complete_relation i ?pos ?rm1)) ?rm1 = Some c3"
    and pp: "possibly_purge_removed_members
          (c3\<lparr>m_relations := (m_relations c3)[?pos := RelationMeta_default]\<rparr>) = Some c4"
  from q have "members_committed
      (log_call (c\<lparr>m_relations := (m_relations c)[?pos := ?rm1]\<rparr>) (complete_relation i ?pos ?rm1))"
    by (simp add: members_committed_def log_call_def)
  from clear_member_metas_committed [OF cl this]
  have "members_committed (c3\<lparr>m_relations := (m_relations c3)[?pos := RelationMeta_default]\<rparr>)"
    by (simp add: members_committed_def)
  from possibly_purge_committed [OF pp this] show "members_committed c4" .
qed

lemma find_and_add_object_inv:
  assumes "find_and_add_object c object = Some (found, c')" and "pass2_inv c"
  shows "pass2_inv c'"
proof (cases "count_not_removed (m_member_meta c (obj_type object))
                (find_member_meta c (obj_type object) (obj_id object)) = 0")
  case True
  with assms show ?thesis by (simp add: find_and_add_object_def)
next
  case False
  let ?rng = "find_member_meta c (obj_type object) (obj_id object)"
  from find_and_add_object_post(2) [OF assms(1) False] assms(2)
  have 1: "completed_once c'"
    using notify_post_completed_once by (auto simp: pass2_inv_def)
  from assms(1) False
  have r: "notify_relations (store_member c object ?rng) object [fst ?rng..<snd ?rng] = Some c'"
    by (auto simp: find_and_add_object_def Let_def)
  have "members_committed (store_member c object ?rng)"
    by (simp add: members_committed_def store_member_frame(5))
  from notify_relations_committed [OF r this] 1 show ?thesis by (simp add: pass2_inv_def)
qed

lemma pass2_object_inv:
  assumes "pass2_object T c obj = Some c'" and "pass2_inv c"
  shows "pass2_inv c'"
proof -
  have h: "pass2_inv c'" if "handle_object en ev c obj = Some c'"
    "\<And>x. completions [ev x] = []" for en ev
  proof (cases en)
    case False
    with that assms(2) show ?thesis by (simp add: handle_object_def)
  next
    case True
    with that(1) obtain found c1 where f: "find_and_add_object c obj = Some (found, c1)"
      and c': "c' = (if \<not> found then log_call c1 (ev obj) else c1)"
      by (auto simp: handle_object_def split: option.splits if_splits)
    from find_and_add_object_inv [OF f assms(2)] that(2) [of obj] show ?thesis
      by (simp add: c' pass2_inv_def completed_once_def members_committed_def log_call_def)
  qed
  from assms(1) show ?thesis
    by (cases "obj_type obj") (auto simp: pass2_object_def intro: h)
qed

lemma apply_pass2_inv:
  "apply_pass2 T c objs = Some c' \<Longrightarrow> pass2_inv c \<Longrightarrow> pass2_inv c'"
proof (induction objs arbitrary: c)
  case Nil
  then show ?case by simp
next
  case (Cons obj objs)
  from Cons.prems(1) obtain c1 where p: "pass2_object T c obj = Some c1"
    and r: "apply_pass2 T c1 objs = Some c'"
    by (auto split: option.splits)
  from Cons.IH [OF r pass2_object_inv [OF p Cons.prems(2)]] show ?case .
qed

lemma add_relation_pass2_fields:
  "add_relation T c rel = Some c' \<Longrightarrow>
     calls c' = calls c \<and> m_members_buffer c' = m_members_buffer c"
  by (auto simp: add_relation_def Let_def split: option.splits prod.splits if_splits)

lemma apply_pass1_pass2_fields:
  "apply_pass1 T c input = Some c' \<Longrightarrow>
     calls c' = calls c \<and> m_members_buffer c' = m_members_buffer c"
proof (induction input arbitrary: c)
  case Nil
  then show ?case by simp
next
  case (Cons obj input)
  from Cons.prems obtain c1 where p: "pass1_object T c obj = Some c1"
    and r: "apply_pass1 T c1 input = Some c'"
    by (auto split: option.splits)
  from p have "calls c1 = calls c \<and> m_members_buffer c1 = m_members_buffer c"
    by (auto simp: pass1_object_def split: if_splits dest: add_relation_pass2_fields)
  with Cons.IH [OF r] show ?case by simp
qed

lemma read_relations_inv:
  "read_relations std_sort T Collector_new input = Some c1 \<Longrightarrow> pass2_inv c1"
  by (auto simp: read_relations_def sort_member_meta_def pass2_inv_def completed_once_def
        members_committed_def Collector_new_def Buffer_new_def
        dest!: apply_pass1_pass2_fields)

lemma bounds_by_ids:
  assumes "map member_id v' = map member_id v"
  shows "lower_bound v' x = lower_bound v x" and "upper_bound v' x = upper_bound v x"
proof -
  have "takeWhile (\<lambda>i. i < x) (map member_id v') = takeWhile (\<lambda>i. i < x) (map member_id v)"
    "takeWhile (\<lambda>i. \<not> x < i) (map member_id v') = takeWhile (\<lambda>i. \<not> x < i) (map member_id v)"
    using assms by simp_all
  then have "length (takeWhile ((\<lambda>i. i < x) \<circ> member_id) v')
             = length (takeWhile ((\<lambda>i. i < x) \<circ> member_id) v)"
    "length (takeWhile ((\<lambda>i. \<not> x < i) \<circ> member_id) v')
             = length (takeWhile ((\<lambda>i. \<not> x < i) \<circ> member_id) v)"
    unfolding takeWhile_map by (metis length_map)+
  then show "lower_bound v' x = lower_bound v x" and "upper_bound v' x = upper_bound v x"
    by (simp_all add: lower_bound_def upper_bound_def comp_def)
qed

lemma keeps_keys_ids: "keeps_keys v v' \<Longrightarrow> map member_id v' = map member_id v"
  by (rule nth_equalityI) (simp_all add: keeps_keys_length keeps_keys_nth(1))

lemma store_member_get_offset:
  assumes "fst (find_member_meta c (obj_type object) x) < snd (find_member_meta c (obj_type object) x)"
  shows "get_offset (store_member c object (find_member_meta c (obj_type object) x))
           (obj_type object) x = Some (committed (m_members_buffer c))"
proof -
  let ?t = "obj_type object"
  let ?rng = "find_member_meta c ?t x"
  let ?cs = "store_member c object ?rng"
  note le = find_member_meta_le [of c ?t x]
  have kk: "keeps_keys (m_member_meta c ?t) (m_member_meta ?cs ?t)"
    using set_offsets_keys(1) [OF le(2)] by (simp add: store_member_frame(6))
  have r: "find_member_meta ?cs ?t x = ?rng"
    using bounds_by_ids [OF keeps_keys_ids [OF kk]]
    by (simp add: find_member_meta_def equal_range_def)
  from store_member_offsets [OF order_refl assms le(2)] assms show ?thesis
    by (simp add: get_offset_def r Let_def)
qed

lemma count_not_removed_nonempty:
  "count_not_removed v rng \<noteq> 0 \<Longrightarrow> fst rng < snd rng"
  by (cases "fst rng < snd rng") (simp_all add: count_not_removed_def)

text \<open>
  C2 as stated fails: the second arrival is stored as well and every record of the
  equal-range is pointed to the new copy. After way 1 has arrived twice, with
  different contents, \<open>get_offset\<close> leads to the second copy; the first copy stays
  in the arena, unreferenced.
\<close>

theorem last_copy_wins_counterexample:
  "read_relations (sort_key member_id) (default_hooks False True False) Collector_new
     dup_relations = Some dup_pass1
   \<and> apply_pass2 (default_hooks False True False) dup_pass1 [mk_way 1] = Some dup_once
   \<and> Option.bind (get_offset dup_once way 1) (get_member dup_once) = Some (mk_way 1)
   \<and> map_option (\<lambda>r. (fst r, Option.bind (get_offset (snd r) way 1) (get_member (snd r)),
                          get_member (snd r) 0))
        (find_and_add_object dup_once ((mk_way 1)\<lparr>version := 2\<rparr>))
      = Some (True, Some ((mk_way 1)\<lparr>version := 2\<rparr>), Some (mk_way 1))
   \<and> mk_way 1 \<noteq> (mk_way 1)\<lparr>version := 2\<rparr>"
proof -
  have "Option.bind (get_offset dup_once way 1) (get_member dup_once) = Some (mk_way 1)"
    by (simp add: dup_defs get_offset_def find_member_meta_def equal_range_def
          lower_bound_def upper_bound_def get_member_def get_def Let_def)
  moreover have "map_option (\<lambda>r. (fst r, Option.bind (get_offset (snd r) way 1) (get_member (snd r)),
                          get_member (snd r) 0))
        (find_and_add_object dup_once ((mk_way 1)\<lparr>version := 2\<rparr>))
      = Some (True, Some ((mk_way 1)\<lparr>version := 2\<rparr>), Some (mk_way 1))"
    by (simp add: dup_defs pass2_defs get_offset_def numeral_eq_Suc)
  moreover have "mk_way 1 \<noteq> (mk_way 1)\<lparr>version := 2\<rparr>"
    by (simp add: mk_way_def)
  ultimately show ?thesis using dup_read_relations dup_first_arrival by simp
qed

subsection \<open>The relations left incomplete\<close>

lemma missing_append [simp]: "missing (v @ w) t A p = missing v t A p + missing w t A p"
  by (simp add: missing_def)

lemma missing_Nil [simp]: "missing [] t A p = 0"
  by (simp add: missing_def)

lemma missing_none:
  "(\<And>mm. mm \<in> set v \<Longrightarrow> relation_pos mm \<noteq> p) \<Longrightarrow> missing v t A p = 0"
  by (simp add: missing_def)

lemma missing_all:
  "(\<And>mm. mm \<in> set v \<Longrightarrow> relation_pos mm = p) \<Longrightarrow> missing v t {} p = length v"
proof -
  assume a: "\<And>mm. mm \<in> set v \<Longrightarrow> relation_pos mm = p"
  have "filter (\<lambda>mm. relation_pos mm = p \<and> (t, member_id mm) \<notin> {}) v = v"
    using a by (intro filter_True) simp
  then show ?thesis by (simp add: missing_def)
qed

lemma missing_mset: "mset v' = mset v \<Longrightarrow> missing v' t A p = missing v t A p"
proof -
  assume "mset v' = mset v"
  then have "mset (filter (\<lambda>mm. relation_pos mm = p \<and> (t, member_id mm) \<notin> A) v')
           = mset (filter (\<lambda>mm. relation_pos mm = p \<and> (t, member_id mm) \<notin> A) v)"
    by (metis mset_filter)
  then show ?thesis unfolding missing_def by (rule mset_eq_length)
qed

lemma add_members_new:
  "add_members T sz ms n rm mmv = (ms', rm', mmv') \<Longrightarrow>
     \<exists>new. (\<forall>t. mmv' t = mmv t @ new t)
       \<and> (\<forall>t. \<forall>mm\<in>set (new t). relation_pos mm = sz \<and> \<not> removed mm)
       \<and> need_members rm'
           = need_members rm + int (length (new node) + length (new way) + length (new relation))
       \<and> relation_offset rm' = relation_offset rm"
proof (induction ms arbitrary: n rm mmv ms')
  case Nil
  then have "(\<forall>t. mmv' t = mmv t @ (\<lambda>_. []) t) \<and> rm' = rm" by simp
  then show ?case by (intro exI [of _ "\<lambda>_. []"]) simp
next
  case (Cons m ms)
  show ?case
  proof (cases "keep_member T rm m")
    case True
    let ?x = "MemberMeta_new (ref m) sz n"
    let ?mmv1 = "mmv(member_type m := mmv (member_type m) @ [?x])"
    from True Cons.prems obtain ms1 where
      r: "add_members T sz ms (n + 1) (increment_need_members rm) ?mmv1 = (ms1, rm', mmv')"
      by (auto split: prod.splits)
    from Cons.IH [OF r] obtain new1 where
      a: "\<And>t. mmv' t = ?mmv1 t @ new1 t"
      and b: "\<And>t mm. mm \<in> set (new1 t) \<Longrightarrow> relation_pos mm = sz \<and> \<not> removed mm"
      and c: "need_members rm' = need_members (increment_need_members rm)
                + int (length (new1 node) + length (new1 way) + length (new1 relation))"
      and d: "relation_offset rm' = relation_offset (increment_need_members rm)"
      by blast
    let ?new = "\<lambda>t. (if t = member_type m then [?x] else []) @ new1 t"
    have 1: "\<forall>t. mmv' t = mmv t @ ?new t" using a by simp
    have 2: "\<forall>t. \<forall>mm\<in>set (?new t). relation_pos mm = sz \<and> \<not> removed mm"
      using b by auto
    have 3: "need_members rm' = need_members rm
               + int (length (?new node) + length (?new way) + length (?new relation))"
      using c by (cases "member_type m") (simp_all add: increment_need_members_def)
    have 4: "relation_offset rm' = relation_offset rm"
      using d by (simp add: increment_need_members_def)
    from 1 2 3 4 show ?thesis by (intro exI [of _ ?new] conjI)
  next
    case False
    with Cons.prems obtain ms1 where
      "add_members T sz ms (n + 1) rm mmv = (ms1, rm', mmv')"
      by (auto split: prod.splits)
    from Cons.IH [OF this] show ?thesis .
  qed
qed

lemma add_relation_counts:
  assumes i: "pass1_inv c" and k: "pass1_counts c" and a: "add_relation T c rel = Some c'"
  shows "pass1_counts c'"
proof -
  let ?b = "m_relations_buffer c"
  let ?n = "length (m_relations c)"
  from i have len: "length (items ?b) = committed ?b" by (simp add: pass1_inv_def)
  from i have rp: "\<And>t mm. mm \<in> set (m_member_meta c t) \<Longrightarrow> relation_pos mm < ?n"
    by (simp add: pass1_inv_def)
  from k have kn: "?n = committed ?b"
    and ko: "\<And>p. p < ?n \<Longrightarrow> relation_offset (m_relations c ! p) = p"
    and kc: "\<And>p. p < ?n \<Longrightarrow> need_members (m_relations c ! p) = int (outstanding c {} p)"
    and kr: "\<And>t mm. mm \<in> set (m_member_meta c t) \<Longrightarrow> \<not> removed mm"
    by (simp_all add: pass1_counts_def)
  obtain ms rm mmv where
    m: "add_members T ?n (members rel) 0 (RelationMeta_at (committed ?b)) (m_member_meta c)
        = (ms, rm, mmv)"
    by (metis prod_cases3)
  from add_members_new [OF m] obtain new where
    n1: "\<And>t. mmv t = m_member_meta c t @ new t"
    and n2: "\<And>t mm. mm \<in> set (new t) \<Longrightarrow> relation_pos mm = ?n \<and> \<not> removed mm"
    and n3: "need_members rm = int (length (new node) + length (new way) + length (new relation))"
    and n4: "relation_offset rm = committed ?b"
    by (auto simp: RelationMeta_at_def)
  have old: "missing (mmv t) t {} p = missing (m_member_meta c t) t {} p" if "p < ?n" for t p
  proof -
    have "missing (new t) t {} p = 0" using n2 that by (intro missing_none) auto
    then show ?thesis by (simp add: n1)
  qed
  have new: "missing (mmv t) t {} ?n = length (new t)" for t
  proof -
    have "missing (m_member_meta c t) t {} ?n = 0"
    proof (rule missing_none)
      fix mm assume "mm \<in> set (m_member_meta c t)"
      from rp [OF this] show "relation_pos mm \<noteq> ?n" by simp
    qed
    moreover have "missing (new t) t {} ?n = length (new t)"
      using n2 by (intro missing_all) auto
    ultimately show ?thesis by (simp add: n1)
  qed
  have nr: "\<not> removed mm" if "mm \<in> set (mmv t)" for t mm
    using that kr n2 by (auto simp: n1)
  show ?thesis
  proof (cases "has_all_members rm")
    case True
    with a have c': "c' = c\<lparr>m_member_meta := mmv\<rparr>"
      by (simp add: add_relation_eq [OF len] m)
    have "\<forall>p<?n. relation_offset (m_relations c ! p) = p
            \<and> need_members (m_relations c ! p) = int (outstanding (c\<lparr>m_member_meta := mmv\<rparr>) {} p)"
      using ko kc old by (simp add: outstanding_def)
    then show ?thesis using kn nr unfolding pass1_counts_def c' by simp
  next
    case False
    with a have c': "c' = c\<lparr>m_member_meta := mmv,
                     m_relations_buffer :=
                       \<lparr>items = items ?b @ [rel\<lparr>members := ms\<rparr>], committed = Suc (committed ?b)\<rparr>,
                     m_relations := m_relations c @ [rm]\<rparr>"
      by (simp add: add_relation_eq [OF len] m)
    have "relation_offset ((m_relations c @ [rm]) ! p) = p
            \<and> need_members ((m_relations c @ [rm]) ! p) = int (outstanding c' {} p)"
      if "p < Suc ?n" for p
    proof (cases "p < ?n")
      case True
      then show ?thesis using ko kc old by (simp add: outstanding_def c' nth_append)
    next
      case False
      with that have p: "p = ?n" by simp
      have "(m_relations c @ [rm]) ! ?n = rm" by (rule nth_append_length)
      then show ?thesis using n3 n4 kn new unfolding p by (simp add: outstanding_def c')
    qed
    then show ?thesis using kn nr unfolding pass1_counts_def c' by simp
  qed
qed

lemma apply_pass1_counts:
  "pass1_inv c \<Longrightarrow> pass1_counts c \<Longrightarrow> apply_pass1 T c input = Some c' \<Longrightarrow> pass1_counts c'"
proof (induction input arbitrary: c)
  case Nil
  then show ?case by simp
next
  case (Cons obj input)
  from Cons.prems(3) obtain c1 where
    s: "pass1_object T c obj = Some c1" and r: "apply_pass1 T c1 input = Some c'"
    by (auto split: option.splits)
  have "pass1_inv c1 \<and> pass1_counts c1"
  proof (cases "obj_type obj = relation \<and> keep_relation T obj")
    case True
    with s have a: "add_relation T c obj = Some c1" by (simp add: pass1_object_def)
    from add_relation_inv [OF Cons.prems(1), of T obj] a
      add_relation_counts [OF Cons.prems(1,2) a]
    show ?thesis by simp
  next
    case False
    with s Cons.prems show ?thesis by (auto simp: pass1_object_def)
  qed
  with Cons.IH [OF _ _ r] show ?case by blast
qed

lemma pass1_counts_new: "pass1_counts Collector_new"
  by (simp add: pass1_counts_def Collector_new_def Buffer_new_def)

lemma slots_okI:
  assumes "length (items (m_relations_buffer c)) = committed (m_relations_buffer c)"
    and "length (m_relations c) = committed (m_relations_buffer c)"
    and "distinct (map obj_id (items (m_relations_buffer c)))"
    and "\<And>t i. i < length (m_member_meta c t) \<Longrightarrow>
           relation_pos (m_member_meta c t ! i) < length (m_relations c)"
    and "\<And>p. p < length (m_relations c) \<Longrightarrow> 0 < need_members (m_relations c ! p) \<Longrightarrow>
           relation_offset (m_relations c ! p) = p"
    and "\<And>t i. i < length (m_member_meta c t) \<Longrightarrow> removed (m_member_meta c t ! i) \<Longrightarrow>
           need_members (m_relations c ! relation_pos (m_member_meta c t ! i)) \<le> 0"
  shows "slots_ok c"
  unfolding slots_ok_def using assms by blast

lemma slots_okD:
  assumes "slots_ok c"
  shows "length (items (m_relations_buffer c)) = committed (m_relations_buffer c)"
    and "length (m_relations c) = committed (m_relations_buffer c)"
    and "distinct (map obj_id (items (m_relations_buffer c)))"
    and "\<And>t i. i < length (m_member_meta c t) \<Longrightarrow>
           relation_pos (m_member_meta c t ! i) < length (m_relations c)"
    and "\<And>p. p < length (m_relations c) \<Longrightarrow> 0 < need_members (m_relations c ! p) \<Longrightarrow>
           relation_offset (m_relations c ! p) = p"
    and "\<And>t i. i < length (m_member_meta c t) \<Longrightarrow> removed (m_member_meta c t ! i) \<Longrightarrow>
           need_members (m_relations c ! relation_pos (m_member_meta c t ! i)) \<le> 0"
  using assms unfolding slots_ok_def by blast+

lemma slots_ok_frame:
  assumes s: "slots_ok c" and f: "pass2_frame c c'"
    and r: "\<And>t i. i < length (m_member_meta c t) \<Longrightarrow> removed (m_member_meta c' t ! i) \<Longrightarrow>
              removed (m_member_meta c t ! i)"
  shows "slots_ok c'"
proof -
  from f have b: "m_relations_buffer c' = m_relations_buffer c"
    and m: "m_relations c' = m_relations c"
    and k: "\<And>t. keeps_keys (m_member_meta c t) (m_member_meta c' t)"
    by (simp_all add: pass2_frame_def)
  note l = keeps_keys_length [OF k]
  note d = slots_okD [OF s]
  show ?thesis
  proof (rule slots_okI)
    fix t i assume i: "i < length (m_member_meta c' t)"
    then have i': "i < length (m_member_meta c t)" by (simp add: l)
    show "relation_pos (m_member_meta c' t ! i) < length (m_relations c')"
      using d(4) [OF i'] keeps_keys_nth(2) [OF k i'] by (simp add: m)
    assume "removed (m_member_meta c' t ! i)"
    from d(6) [OF i' r [OF i' this]]
    show "need_members (m_relations c' ! relation_pos (m_member_meta c' t ! i)) \<le> 0"
      using keeps_keys_nth(2) [OF k i'] by (simp add: m)
  qed (use d in \<open>simp_all add: b m\<close>)
qed

lemma moving_in_buffer_flags:
  assumes "moving_in_buffer c a b = Some c'"
  shows "map removed (m_member_meta c' t) = map removed (m_member_meta c t)"
proof -
  from assms obtain object v where
    g: "get (m_members_buffer c) a = Some object"
    and mv: "move_offsets (m_member_meta c (obj_type object))
              [fst (find_member_meta c (obj_type object) (obj_id object))..<
               snd (find_member_meta c (obj_type object) (obj_id object))] a b = Some v"
    and c': "c' = set_member_meta c (obj_type object) v"
    by (auto simp: moving_in_buffer_def Let_def split: option.splits)
  note u = move_offsets_upt [OF mv find_member_meta_le(2)]
  have "map removed v = map removed (m_member_meta c (obj_type object))"
    using u by (intro nth_equalityI) (simp_all add: set_buffer_offset_def)
  then show ?thesis by (simp add: c' set_member_meta_def)
qed

lemma purge_moves_flags:
  "purge_moves c rds wr = Some c' \<Longrightarrow>
     map removed (m_member_meta c' t) = map removed (m_member_meta c t)"
proof (induction rds arbitrary: c wr)
  case Nil
  then show ?case by simp
next
  case (Cons rd rds)
  from Cons.prems obtain item where g: "get (m_members_buffer c) rd = Some item"
    by (auto split: option.splits)
  show ?case
  proof (cases "removed_flag item")
    case True
    with Cons.prems g Cons.IH [of c wr] show ?thesis by simp
  next
    case False
    with Cons.prems g obtain c1 where
      m: "(if rd \<noteq> wr then moving_in_buffer c rd wr else Some c) = Some c1"
      and r: "purge_moves c1 rds (wr + 1) = Some c'"
      by (auto split: option.splits)
    have "map removed (m_member_meta c1 t) = map removed (m_member_meta c t)"
      using m moving_in_buffer_flags [of c rd wr c1 t] by (cases "rd \<noteq> wr") simp_all
    with Cons.IH [OF r] show ?thesis by simp
  qed
qed

lemma possibly_purge_flags:
  assumes "possibly_purge_removed_members c = Some c'"
  shows "map removed (m_member_meta c' t) = map removed (m_member_meta c t)"
  using assms unfolding possibly_purge_removed_members_def purge_removed_def Let_def
  by (auto simp: log_call_def split: if_splits option.splits dest!: purge_moves_flags [where t = t])

lemma flags_nth:
  assumes "map removed v' = map removed v" and "i < length v"
  shows "removed (v' ! i) = removed (v ! i)"
proof -
  from assms(1) have "length v' = length v" by (metis length_map)
  with assms(2) have "removed (v' ! i) = map removed v' ! i" "removed (v ! i) = map removed v ! i"
    by simp_all
  with assms(1) show ?thesis by simp
qed

lemma possibly_purge_slots_ok:
  assumes "possibly_purge_removed_members c = Some c'" and "slots_ok c"
  shows "slots_ok c'"
  using assms(2) possibly_purge_pass2_frame [OF assms(1)]
proof (rule slots_ok_frame)
  fix t i assume "i < length (m_member_meta c t)" "removed (m_member_meta c' t ! i)"
  with flags_nth [OF possibly_purge_flags [OF assms(1)]]
  show "removed (m_member_meta c t ! i)" by simp
qed

lemma same_id_done:
  assumes s: "slots_ok c" and p: "p < length (m_relations c)"
    and np: "need_members (m_relations c ! p) \<le> 0"
    and g: "get_relation_of_member c mm = Some r"
    and e: "obj_id r = obj_id (items (m_relations_buffer c) ! p)"
  shows "need_members (m_relations c ! relation_pos mm) \<le> 0"
proof (rule ccontr)
  let ?q = "relation_pos mm"
  let ?its = "items (m_relations_buffer c)"
  note d = slots_okD [OF s]
  assume "\<not> need_members (m_relations c ! ?q) \<le> 0"
  then have pos: "0 < need_members (m_relations c ! ?q)" by simp
  from g have q: "?q < length (m_relations c)"
    by (simp add: get_relation_of_member_def split: if_splits)
  from d(5) [OF q pos] g q have "get_relation c ?q = Some r"
    by (simp add: get_relation_of_member_def get_relation_of_meta_def)
  then have r: "r = ?its ! ?q"
    by (simp add: get_relation_def get_def split: if_splits)
  from p q d(1,2) have lp: "p < length (map obj_id ?its)" and lq: "?q < length (map obj_id ?its)"
    by simp_all
  from e r p q d(1,2) have "map obj_id ?its ! ?q = map obj_id ?its ! p" by simp
  with nth_eq_iff_index_eq [OF d(3) lq lp] have "?q = p" by blast
  with pos np show False by simp
qed

lemma remove_first_slots_ok:
  assumes "remove_first c rel_id t is = Some c'" and s: "slots_ok c"
    and p: "p < length (m_relations c)" and np: "need_members (m_relations c ! p) \<le> 0"
    and e: "rel_id = obj_id (items (m_relations_buffer c) ! p)"
  shows "slots_ok c'"
  using assms(1)
proof (induction "is")
  case Nil
  with s show ?case by simp
next
  case (Cons i "is")
  let ?v = "m_member_meta c t"
  show ?case
  proof (cases "removed (?v ! i)")
    case True
    with Cons show ?thesis by simp
  next
    case nr: False
    with Cons.prems obtain r where g: "get_relation_of_member c (?v ! i) = Some r"
      by (auto simp: Let_def split: option.splits)
    show ?thesis
    proof (cases "rel_id = obj_id r")
      case False
      with Cons nr g show ?thesis by simp
    next
      case True
      with Cons.prems nr g have c': "c' = set_member_meta c t (?v[i := remove_mm (?v ! i)])"
        by simp
      note d = slots_okD [OF s]
      from True e have "obj_id r = obj_id (items (m_relations_buffer c) ! p)" by simp
      note fin = same_id_done [OF s p np g this]
      have v': "m_member_meta c' t' = (if t' = t then ?v[i := remove_mm (?v ! i)]
                                        else m_member_meta c t')" for t'
        by (simp add: c' set_member_meta_def)
      have len: "length (m_member_meta c' t') = length (m_member_meta c t')" for t'
        by (simp add: v')
      have rp: "relation_pos (m_member_meta c' t' ! j) = relation_pos (m_member_meta c t' ! j)"
        if "j < length (m_member_meta c t')" for t' j
        using that by (cases "t' = t"; cases "j = i") (simp_all add: v' remove_mm_def)
      have rm: "removed (m_member_meta c t' ! j) \<or> (t' = t \<and> j = i)"
        if "j < length (m_member_meta c t')" "removed (m_member_meta c' t' ! j)" for t' j
        using that by (auto simp: v' nth_list_update split: if_splits)
      have f: "m_relations c' = m_relations c" "m_relations_buffer c' = m_relations_buffer c"
        by (simp_all add: c' set_member_meta_def)
      show ?thesis
      proof (rule slots_okI)
        fix t' j assume j: "j < length (m_member_meta c' t')"
        then have j': "j < length (m_member_meta c t')" by (simp add: len)
        show "relation_pos (m_member_meta c' t' ! j) < length (m_relations c')"
          using d(4) [OF j'] by (simp add: rp [OF j'] f)
        assume "removed (m_member_meta c' t' ! j)"
        from rm [OF j' this]
        show "need_members (m_relations c' ! relation_pos (m_member_meta c' t' ! j)) \<le> 0"
        proof
          assume "removed (m_member_meta c t' ! j)"
          from d(6) [OF j' this] show ?thesis by (simp add: rp [OF j'] f)
        next
          assume "t' = t \<and> j = i"
          with fin show ?thesis using rp [OF j'] by (simp add: f)
        qed
      qed (use d in \<open>simp_all add: f\<close>)
    qed
  qed
qed

lemma set_member_removed_slots_ok:
  "set_member_removed c offset = Some c' \<Longrightarrow> slots_ok c \<Longrightarrow> slots_ok c'"
  by (auto simp: set_member_removed_def slots_ok_def split: option.splits)

lemma clear_members_slots_ok:
  assumes "clear_members c rel ms = Some c'" and "slots_ok c"
    and "p < length (m_relations c)" and "need_members (m_relations c ! p) \<le> 0"
    and "obj_id rel = obj_id (items (m_relations_buffer c) ! p)"
  shows "slots_ok c'"
  using assms
proof (induction ms arbitrary: c)
  case Nil
  then show ?case by simp
next
  case (Cons m ms)
  show ?case
  proof (cases "ref m \<noteq> 0")
    case False
    with Cons.prems Cons.IH [of c] show ?thesis by simp
  next
    case True
    let ?t = "member_type m"
    let ?rng = "find_member_meta c ?t (ref m)"
    from True Cons.prems(1) obtain c1 c2 where
      a: "(if count_not_removed (m_member_meta c ?t) ?rng = 1
           then set_member_removed c (buffer_offset (m_member_meta c ?t ! fst ?rng))
           else Some c) = Some c1"
      and b: "remove_first c1 (obj_id rel) ?t [fst ?rng..<snd ?rng] = Some c2"
      and r: "clear_members c2 rel ms = Some c'"
      by (auto simp: Let_def split: if_splits option.splits)
    have f1: "pass2_frame c c1"
      using a set_member_removed_pass2_frame [of c _ c1]
      by (cases "count_not_removed (m_member_meta c ?t) ?rng = 1") simp_all
    have s1: "slots_ok c1"
      using a set_member_removed_slots_ok [of c _ c1] Cons.prems(2)
      by (cases "count_not_removed (m_member_meta c ?t) ?rng = 1") simp_all
    from f1 have e1: "m_relations c1 = m_relations c" "m_relations_buffer c1 = m_relations_buffer c"
      by (simp_all add: pass2_frame_def)
    have s2: "slots_ok c2"
      using remove_first_slots_ok [OF b s1, of p] Cons.prems(3,4,5) by (simp add: e1)
    from remove_first_pass2_frame [OF b]
    have e2: "m_relations c2 = m_relations c" "m_relations_buffer c2 = m_relations_buffer c"
      by (simp_all add: pass2_frame_def e1)
    from Cons.IH [OF r s2] Cons.prems(3,4,5) show ?thesis by (simp add: e2)
  qed
qed

lemma clear_member_metas_slots_ok:
  assumes cl: "clear_member_metas c rm = Some c'" and s: "slots_ok c"
    and p: "relation_offset rm < length (m_relations c)"
    and np: "need_members (m_relations c ! relation_offset rm) \<le> 0"
  shows "slots_ok c'"
proof -
  from cl obtain rel where g: "get_relation_of_meta c rm = Some rel"
    and m: "clear_members c rel (members rel) = Some c'"
    by (auto simp: clear_member_metas_def split: option.splits)
  from g have "rel = items (m_relations_buffer c) ! relation_offset rm"
    by (simp add: get_relation_of_meta_def get_relation_def get_def split: if_splits)
  then have "obj_id rel = obj_id (items (m_relations_buffer c) ! relation_offset rm)" by simp
  from clear_members_slots_ok [OF m s p np this] show ?thesis .
qed

lemma notify_relations_slots_ok:
  assumes run: "notify_relations c object is = Some c'" and s: "slots_ok c"
  shows "slots_ok c'"
  using run s
proof (rule notify_relations_rule)
  fix c :: Collector and i
  let ?q = "relation_pos (m_member_meta c (obj_type object) ! i)"
  let ?c1 = "c\<lparr>m_relations := (m_relations c)[?q := got_one_member (m_relations c ! ?q)]\<rparr>"
  assume s: "slots_ok c" and q: "?q < length (m_relations c)"
  note d = slots_okD [OF s]
  have nth: "need_members (m_relations ?c1 ! p) \<le> need_members (m_relations c ! p)"
    "relation_offset (m_relations ?c1 ! p) = relation_offset (m_relations c ! p)"
    if "p < length (m_relations c)" for p
    using that by (cases "p = ?q"; simp add: got_one_member_def)+
  show "slots_ok ?c1"
  proof (rule slots_okI)
    fix p assume p: "p < length (m_relations ?c1)" and n: "0 < need_members (m_relations ?c1 ! p)"
    from p have p': "p < length (m_relations c)" by simp
    from n nth(1) [OF p'] have "0 < need_members (m_relations c ! p)" by simp
    from d(5) [OF p' this] nth(2) [OF p']
    show "relation_offset (m_relations ?c1 ! p) = p" by simp
  next
    fix t j assume j: "j < length (m_member_meta ?c1 t)" and r: "removed (m_member_meta ?c1 t ! j)"
    from j have j': "j < length (m_member_meta c t)" by simp
    from r have r': "removed (m_member_meta c t ! j)" by simp
    from d(6) [OF j' r'] nth(1) [OF d(4) [OF j']]
    show "need_members (m_relations ?c1 ! relation_pos (m_member_meta ?c1 t ! j)) \<le> 0"
      by simp
  qed (use d in simp_all)
next
  fix c c3 c4 :: Collector and i
  let ?q = "relation_pos (m_member_meta c (obj_type object) ! i)"
  let ?rm1 = "got_one_member (m_relations c ! ?q)"
  let ?c1 = "c\<lparr>m_relations := (m_relations c)[?q := ?rm1]\<rparr>"
  let ?c2 = "log_call ?c1 (complete_relation i ?q ?rm1)"
  assume s: "slots_ok c" and q: "?q < length (m_relations c)"
    and h: "has_all_members ?rm1"
    and cl: "clear_member_metas ?c2 ?rm1 = Some c3"
    and pp: "possibly_purge_removed_members
               (c3\<lparr>m_relations := (m_relations c3)[?q := RelationMeta_default]\<rparr>) = Some c4"
  note d = slots_okD [OF s]
  from h have one: "need_members (m_relations c ! ?q) = 1"
    by (simp add: has_all_members_def got_one_member_def)
  with d(5) [OF q] have off: "relation_offset ?rm1 = ?q" by (simp add: got_one_member_def)
  have nth: "need_members (m_relations ?c2 ! p) \<le> need_members (m_relations c ! p)"
    "relation_offset (m_relations ?c2 ! p) = relation_offset (m_relations c ! p)"
    if "p < length (m_relations c)" for p
    using that by (cases "p = ?q"; simp add: got_one_member_def log_call_def)+
  have s2: "slots_ok ?c2"
  proof (rule slots_okI)
    fix p assume p: "p < length (m_relations ?c2)" and n: "0 < need_members (m_relations ?c2 ! p)"
    from p have p': "p < length (m_relations c)" by (simp add: log_call_def)
    from n nth(1) [OF p'] have "0 < need_members (m_relations c ! p)" by simp
    from d(5) [OF p' this] nth(2) [OF p']
    show "relation_offset (m_relations ?c2 ! p) = p" by simp
  next
    fix t j assume j: "j < length (m_member_meta ?c2 t)" and r: "removed (m_member_meta ?c2 t ! j)"
    from j have j': "j < length (m_member_meta c t)" by (simp add: log_call_def)
    from r have r': "removed (m_member_meta c t ! j)" by (simp add: log_call_def)
    have "relation_pos (m_member_meta ?c2 t ! j) = relation_pos (m_member_meta c t ! j)"
      by (simp add: log_call_def)
    with d(6) [OF j' r'] nth(1) [OF d(4) [OF j']]
    show "need_members (m_relations ?c2 ! relation_pos (m_member_meta ?c2 t ! j)) \<le> 0"
      by simp
  qed (use d in \<open>simp_all add: log_call_def\<close>)
  have q2: "relation_offset ?rm1 < length (m_relations ?c2)"
    using q off by (simp add: log_call_def)
  have n2: "need_members (m_relations ?c2 ! relation_offset ?rm1) \<le> 0"
    using q one unfolding off by (simp add: log_call_def got_one_member_def)
  note s3 = clear_member_metas_slots_ok [OF cl s2 q2 n2]
  note d3 = slots_okD [OF s3]
  let ?c3' = "c3\<lparr>m_relations := (m_relations c3)[?q := RelationMeta_default]\<rparr>"
  have l3: "length (m_relations c3) = length (m_relations c)"
    using clear_member_metas_pass2_frame [OF cl] by (simp add: pass2_frame_def log_call_def)
  have nth3: "need_members (m_relations ?c3' ! p)
                = (if p = ?q then 0 else need_members (m_relations c3 ! p))"
    "p \<noteq> ?q \<Longrightarrow> relation_offset (m_relations ?c3' ! p) = relation_offset (m_relations c3 ! p)"
    if "p < length (m_relations c3)" for p
    using that by (cases "p = ?q"; simp add: RelationMeta_default_def)+
  have "slots_ok ?c3'"
  proof (rule slots_okI)
    fix p assume p: "p < length (m_relations ?c3')" and n: "0 < need_members (m_relations ?c3' ! p)"
    from p have p': "p < length (m_relations c3)" by simp
    from n nth3(1) [OF p'] have ne: "p \<noteq> ?q" and "0 < need_members (m_relations c3 ! p)"
      by (simp_all split: if_splits)
    from d3(5) [OF p' this(2)] nth3(2) [OF p' ne]
    show "relation_offset (m_relations ?c3' ! p) = p" by simp
  next
    fix t j assume j: "j < length (m_member_meta ?c3' t)" and r: "removed (m_member_meta ?c3' t ! j)"
    from j have j': "j < length (m_member_meta c3 t)" by simp
    from r have r': "removed (m_member_meta c3 t ! j)" by simp
    from d3(6) [OF j' r'] nth3(1) [OF d3(4) [OF j']]
    show "need_members (m_relations ?c3' ! relation_pos (m_member_meta ?c3' t ! j)) \<le> 0"
      by (simp split: if_splits)
  qed (use d3 in simp_all)
  from possibly_purge_slots_ok [OF pp this] show "slots_ok c4" .
qed

lemma missing_keys:
  assumes "keeps_keys v v'"
  shows "missing v' t A p = missing v t A p"
proof -
  let ?f = "\<lambda>mm. (relation_pos mm, member_id mm)"
  let ?P = "\<lambda>k. fst k = p \<and> (t, snd k) \<notin> A"
  have m: "map ?f v' = map ?f v"
    using assms
    by (intro nth_equalityI) (simp_all add: keeps_keys_length keeps_keys_nth(1,2))
  have e: "missing w t A p = length (filter ?P (map ?f w))" for w
    by (simp add: missing_def filter_map comp_def)
  show ?thesis by (simp only: e m)
qed

lemma outstanding_keys:
  assumes "\<And>t. keeps_keys (m_member_meta c t) (m_member_meta c' t)"
  shows "outstanding c' A p = outstanding c A p"
  by (simp add: outstanding_def missing_keys [OF assms])

lemma missing_insert_same:
  "(t, x) \<notin> A \<Longrightarrow>
     missing v t A p
     = missing v t (insert (t, x) A) p
       + length (filter (\<lambda>mm. relation_pos mm = p \<and> member_id mm = x) v)"
  by (induction v) (auto simp: missing_def)

lemma missing_insert_other:
  "t' \<noteq> t \<Longrightarrow> missing v t' (insert (t, x) A) p = missing v t' A p"
  by (simp add: missing_def)

lemma outstanding_insert:
  assumes "(t, x) \<notin> A"
  shows "outstanding c A p
     = outstanding c (insert (t, x) A) p
       + length (filter (\<lambda>mm. relation_pos mm = p \<and> member_id mm = x) (m_member_meta c t))"
  using missing_insert_same [OF assms, of _ p]
  by (cases t) (simp_all add: outstanding_def missing_insert_other)

lemma filter_window:
  "length (filter (\<lambda>i. lo \<le> i \<and> i < hi \<and> Q i) [0..<n]) = length (filter Q [lo..<min hi n])"
proof (induction n)
  case 0
  then show ?case by simp
next
  case (Suc n)
  show ?case
  proof (cases "n < hi")
    case True
    then have m: "min hi (Suc n) = Suc n" "min hi n = n" by simp_all
    from Suc True show ?thesis unfolding m by (cases "lo \<le> n") simp_all
  next
    case False
    then have m: "min hi (Suc n) = hi" "min hi n = hi" by simp_all
    from Suc False show ?thesis unfolding m by simp
  qed
qed

lemma filter_range_hits:
  assumes "sorted (map member_id v)"
  shows "length (filter (\<lambda>mm. relation_pos mm = p \<and> member_id mm = x) v)
         = hits v (lower_bound v x) (upper_bound v x) p"
proof -
  let ?P = "\<lambda>mm. relation_pos mm = p \<and> member_id mm = x"
  let ?lo = "lower_bound v x" and ?hi = "upper_bound v x"
  have "filter ?P (map ((!) v) [0..<length v])
        = map ((!) v) (filter (?P \<circ> (!) v) [0..<length v])"
    by (rule filter_map)
  then have "length (filter ?P v) = length (filter (?P \<circ> (!) v) [0..<length v])"
    by (simp add: map_nth)
  also have "filter (?P \<circ> (!) v) [0..<length v]
             = filter (\<lambda>i. ?lo \<le> i \<and> i < ?hi \<and> relation_pos (v ! i) = p) [0..<length v]"
    using equal_range_sorted [OF assms, of _ x] by (intro filter_cong) auto
  also have "length \<dots> = length (filter (\<lambda>i. relation_pos (v ! i) = p) [?lo..<min ?hi (length v)])"
    by (rule filter_window)
  also have "min ?hi (length v) = ?hi" using upper_le_length [of v x] by simp
  finally show ?thesis by (simp add: hits_def)
qed

lemma count_not_removed_zero:
  assumes "count_not_removed v rng = 0" and "fst rng \<le> i" and "i < snd rng"
    and "snd rng \<le> length v"
  shows "removed (v ! i)"
proof -
  let ?w = "take (snd rng - fst rng) (drop (fst rng) v)"
  from assms(1) have a: "\<And>mm. mm \<in> set ?w \<Longrightarrow> removed mm"
    by (simp add: count_not_removed_def filter_empty_conv)
  from assms(2,3,4) have l: "i - fst rng < length ?w" by simp
  from assms(2,3,4) have "?w ! (i - fst rng) = v ! i" by simp
  with a [OF nth_mem [OF l]] show ?thesis by simp
qed

lemma find_and_add_object_counts:
  assumes f: "find_and_add_object c object = Some (found, c')"
    and s: "slots_ok c" and sv: "sorted_vectors c" and co: "counts_ok c A"
    and new: "(obj_type object, obj_id object) \<notin> A"
  shows "slots_ok c'" and "sorted_vectors c'"
    and "counts_ok c' (insert (obj_type object, obj_id object) A)"
    and "\<And>t. keeps_keys (m_member_meta c t) (m_member_meta c' t)"
    and "length (m_relations c') = length (m_relations c)"
    and "m_relations_buffer c' = m_relations_buffer c"
proof -
  let ?t = "obj_type object" and ?x = "obj_id object"
  let ?v = "m_member_meta c ?t"
  let ?rng = "find_member_meta c ?t ?x"
  let ?lo = "fst ?rng" and ?hi = "snd ?rng"
  let ?A = "insert (?t, ?x) A"
  note le = find_member_meta_le [of c ?t ?x]
  note d = slots_okD [OF s]
  from sv have sorted: "sorted (map member_id ?v)" by (simp add: sorted_vectors_def)
  have out: "outstanding c A p = outstanding c ?A p + hits ?v ?lo ?hi p" for p
    using outstanding_insert [OF new, of c p] filter_range_hits [OF sorted, of p ?x]
    by (simp add: find_member_meta_def equal_range_def)
  from co have need: "\<And>p. p < length (m_relations c) \<Longrightarrow>
       need_members (m_relations c ! p) = int (outstanding c A p)"
    by (simp add: counts_ok_def)
  have live: "1 \<le> need_members (m_relations c ! relation_pos (?v ! i))"
    if i: "?lo \<le> i" "i < ?hi" for i
  proof -
    let ?q = "relation_pos (?v ! i)"
    from i le(2) have il: "i < length ?v" by simp
    have "Suc (hits ?v ?lo i ?q) = hits ?v ?lo (Suc i) ?q"
      using hits_own [OF i(1), of ?v ?q] by simp
    also have "\<dots> \<le> hits ?v ?lo ?hi ?q" using i(2) by (intro hits_le) simp
    finally have "1 \<le> outstanding c A ?q" using out [of ?q] by simp
    with need [OF d(4) [OF il]] show ?thesis by simp
  qed
  have "slots_ok c' \<and> sorted_vectors c' \<and> counts_ok c' ?A
        \<and> (\<forall>t. keeps_keys (m_member_meta c t) (m_member_meta c' t))
        \<and> length (m_relations c') = length (m_relations c)
        \<and> m_relations_buffer c' = m_relations_buffer c"
  proof (cases "count_not_removed ?v ?rng = 0")
    case True
    with f have c': "c' = c" by (simp add: find_and_add_object_def Let_def)
    have "hits ?v ?lo ?hi p = 0" if "p < length (m_relations c)" for p
    proof (rule ccontr)
      assume "hits ?v ?lo ?hi p \<noteq> 0"
      then obtain i where i: "?lo \<le> i" "i < ?hi" "relation_pos (?v ! i) = p"
        by (auto simp: hits_def filter_empty_conv)
      from i le(2) have il: "i < length ?v" by simp
      from count_not_removed_zero [OF True i(1,2) le(2)] have "removed (?v ! i)" .
      from d(6) [OF il this] live [OF i(1,2)] show False by simp
    qed
    with need out have "counts_ok c ?A" by (simp add: counts_ok_def)
    with s sv show ?thesis by (simp add: c')
  next
    case False
    let ?cs = "store_member c object ?rng"
    from f False have r: "notify_relations ?cs object [?lo..<?hi] = Some c'"
      by (auto simp: find_and_add_object_def Let_def)
    note sf = store_member_frame [of c object ?rng]
    note so = set_offsets_keys [OF le(2), where lo = ?lo and off = "committed (m_members_buffer c)"]
    have kk: "keeps_keys (m_member_meta c t') (m_member_meta ?cs t')" for t'
      using so(1) by (simp add: sf(6))
    have fr: "pass2_frame c ?cs" using kk by (simp add: pass2_frame_def sf)
    have "slots_ok ?cs" using s fr
    proof (rule slots_ok_frame)
      fix t' i assume "i < length (m_member_meta c t')" "removed (m_member_meta ?cs t' ! i)"
      then show "removed (m_member_meta c t' ! i)"
        using so(2) [of i] by (cases "t' = ?t") (simp_all add: sf(6))
    qed
    from notify_relations_slots_ok [OF r this] have s': "slots_ok c'" .
    note d' = slots_okD [OF s']
    from find_and_add_object_post(2) [OF f False]
    obtain k ks where post: "notify_post c ?t ?x ?lo ?hi c' k ks" by blast
    note p = post [unfolded notify_post_def]
    from p have k: "?lo \<le> k" "k \<le> ?hi" by simp_all
    from p have kc: "\<And>t'. keeps_keys (m_member_meta c t') (m_member_meta c' t')" by blast
    from p have len: "length (m_relations c') = length (m_relations c)" by blast
    from p have rb: "m_relations_buffer c' = m_relations_buffer c" by blast
    from p have dec: "\<And>q. q < length (m_relations c) \<Longrightarrow>
        need_members (m_relations c' ! q)
        = need_members (m_relations c ! q) - int (hits ?v ?lo k q)" by blast
    from p have stop: "k < ?hi \<Longrightarrow> removed (m_member_meta c' ?t ! k)" by blast
    have khi: "k = ?hi"
    proof (rule ccontr)
      assume "k \<noteq> ?hi"
      with k have lt: "k < ?hi" by simp
      with le(2) have kl: "k < length ?v" by simp
      then have kl': "k < length (m_member_meta c' ?t)" by (simp add: keeps_keys_length [OF kc])
      let ?q = "relation_pos (?v ! k)"
      have q: "?q < length (m_relations c)" using d(4) [OF kl] .
      from d'(6) [OF kl' stop [OF lt]] keeps_keys_nth(2) [OF kc kl]
      have "need_members (m_relations c' ! ?q) \<le> 0" by simp
      with dec [OF q] have a: "need_members (m_relations c ! ?q) \<le> int (hits ?v ?lo k ?q)"
        by simp
      have "Suc (hits ?v ?lo k ?q) = hits ?v ?lo (Suc k) ?q"
        using hits_own [OF k(1), of ?v ?q] by simp
      also have "\<dots> \<le> hits ?v ?lo ?hi ?q" using lt by (intro hits_le) simp
      finally have "int (hits ?v ?lo k ?q) < int (outstanding c A ?q)" using out [of ?q] by simp
      with a need [OF q] show False by simp
    qed
    have "need_members (m_relations c' ! q) = int (outstanding c' ?A q)"
      if "q < length (m_relations c')" for q
    proof -
      from that have q: "q < length (m_relations c)" by (simp add: len)
      from dec [OF q] need [OF q] out [of q] show ?thesis
        unfolding khi outstanding_keys [of c c', OF kc] by simp
    qed
    then have "counts_ok c' ?A" by (simp add: counts_ok_def)
    moreover have "sorted_vectors c'"
      using sv keeps_keys_ids [OF kc] by (simp add: sorted_vectors_def)
    ultimately show ?thesis using s' kc len rb by blast
  qed
  then show "slots_ok c'" and "sorted_vectors c'" and "counts_ok c' ?A"
    and "\<And>t. keeps_keys (m_member_meta c t) (m_member_meta c' t)"
    and "length (m_relations c') = length (m_relations c)"
    and "m_relations_buffer c' = m_relations_buffer c"
    by blast+
qed

lemma log_call_inv [simp]:
  "slots_ok (log_call c e) = slots_ok c" "sorted_vectors (log_call c e) = sorted_vectors c"
  "counts_ok (log_call c e) A = counts_ok c A"
  "m_member_meta (log_call c e) = m_member_meta c" "m_relations (log_call c e) = m_relations c"
  "m_relations_buffer (log_call c e) = m_relations_buffer c"
  by (simp_all add: log_call_def slots_ok_def sorted_vectors_def counts_ok_def outstanding_def)

lemma handle_object_counts:
  assumes h: "handle_object True f c obj = Some c'"
    and s: "slots_ok c" and sv: "sorted_vectors c" and co: "counts_ok c A"
    and new: "(obj_type obj, obj_id obj) \<notin> A"
  shows "slots_ok c' \<and> sorted_vectors c' \<and> counts_ok c' (insert (obj_type obj, obj_id obj) A)
     \<and> (\<forall>t. keeps_keys (m_member_meta c t) (m_member_meta c' t))
     \<and> length (m_relations c') = length (m_relations c)
     \<and> m_relations_buffer c' = m_relations_buffer c"
proof -
  from h obtain found c1 where f: "find_and_add_object c obj = Some (found, c1)"
    and c': "c' = (if \<not> found then log_call c1 (f obj) else c1)"
    by (auto simp: handle_object_def split: option.splits if_splits)
  note r = find_and_add_object_counts [OF f s sv co new]
  show ?thesis using r unfolding c' by (cases found) simp_all
qed

lemma pass2_object_counts:
  assumes h: "pass2_object T c obj = Some c'"
    and s: "slots_ok c" and sv: "sorted_vectors c" and co: "counts_ok c A"
    and new: "set (arrived T [obj]) \<inter> A = {}"
  shows "slots_ok c' \<and> sorted_vectors c' \<and> counts_ok c' (A \<union> set (arrived T [obj]))
     \<and> (\<forall>t. keeps_keys (m_member_meta c t) (m_member_meta c' t))
     \<and> length (m_relations c') = length (m_relations c)
     \<and> m_relations_buffer c' = m_relations_buffer c"
proof (cases "handled T obj")
  case False
  with h have "c' = c"
    by (cases "obj_type obj") (simp_all add: pass2_object_def handled_def handle_object_def)
  with False s sv co show ?thesis by (simp add: arrived_def)
next
  case True
  with new have n: "(obj_type obj, obj_id obj) \<notin> A" by (simp add: arrived_def)
  from True h obtain f where "handle_object True f c obj = Some c'"
    by (cases "obj_type obj") (simp_all add: pass2_object_def handled_def)
  from handle_object_counts [OF this s sv co n] True show ?thesis
    by (simp add: arrived_def)
qed

lemma arrived_Cons: "arrived T (obj # objs) = arrived T [obj] @ arrived T objs"
  by (simp add: arrived_def)

lemma apply_pass2_counts:
  "apply_pass2 T c objs = Some c' \<Longrightarrow> slots_ok c \<Longrightarrow> sorted_vectors c \<Longrightarrow> counts_ok c A \<Longrightarrow>
   distinct (arrived T objs) \<Longrightarrow> set (arrived T objs) \<inter> A = {} \<Longrightarrow>
     slots_ok c' \<and> counts_ok c' (A \<union> set (arrived T objs))
     \<and> (\<forall>t. keeps_keys (m_member_meta c t) (m_member_meta c' t))
     \<and> length (m_relations c') = length (m_relations c)
     \<and> m_relations_buffer c' = m_relations_buffer c"
proof (induction objs arbitrary: c A)
  case Nil
  then show ?case by (simp add: arrived_def)
next
  case (Cons obj objs)
  from Cons.prems(1) obtain c1 where
    o: "pass2_object T c obj = Some c1" and r: "apply_pass2 T c1 objs = Some c'"
    by (auto split: option.splits)
  let ?A1 = "A \<union> set (arrived T [obj])"
  from Cons.prems(5,6) have d: "distinct (arrived T objs)"
    and n1: "set (arrived T [obj]) \<inter> A = {}"
    and n2: "set (arrived T objs) \<inter> ?A1 = {}"
    unfolding arrived_Cons [of T obj objs] by auto
  from pass2_object_counts [OF o Cons.prems(2,3,4) n1]
  have s1: "slots_ok c1" and sv1: "sorted_vectors c1" and co1: "counts_ok c1 ?A1"
    and k1: "\<And>t. keeps_keys (m_member_meta c t) (m_member_meta c1 t)"
    and l1: "length (m_relations c1) = length (m_relations c)"
    and b1: "m_relations_buffer c1 = m_relations_buffer c"
    by blast+
  from Cons.IH [OF r s1 sv1 co1 d n2]
  have s2: "slots_ok c'" and co2: "counts_ok c' (?A1 \<union> set (arrived T objs))"
    and k2: "\<And>t. keeps_keys (m_member_meta c1 t) (m_member_meta c' t)"
    and l2: "length (m_relations c') = length (m_relations c1)"
    and b2: "m_relations_buffer c' = m_relations_buffer c1"
    by blast+
  have e: "?A1 \<union> set (arrived T objs) = A \<union> set (arrived T (obj # objs))"
    unfolding arrived_Cons [of T obj objs] by auto
  from s2 co2 keeps_keys_trans [OF k1 k2] l1 l2 b1 b2 show ?case
    unfolding e by simp
qed

lemma read_relations_counts:
  assumes sp: "sort_spec std_sort"
    and rd: "read_relations std_sort T Collector_new input = Some c1"
    and di: "distinct (map obj_id (items (m_relations_buffer c1)))"
  shows "slots_ok c1" and "sorted_vectors c1" and "counts_ok c1 {}"
proof -
  from rd obtain c0 where a: "apply_pass1 T Collector_new input = Some c0"
    and c1: "c1 = sort_member_meta std_sort c0"
    by (auto simp: read_relations_def)
  from apply_pass1_inv [OF pass1_inv_new, of T input] a have i: "pass1_inv c0" by simp
  note k = apply_pass1_counts [OF pass1_inv_new pass1_counts_new a]
  from sp have ms: "\<And>v. mset (std_sort v) = mset v"
    and so: "\<And>v. sorted (map member_id (std_sort v))"
    by (simp_all add: sort_spec_def)
  have st: "set (std_sort v) = set v" for v using ms [of v] by (rule mset_eq_setD)
  have f: "m_relations c1 = m_relations c0" "m_relations_buffer c1 = m_relations_buffer c0"
    "\<And>t. m_member_meta c1 t = std_sort (m_member_meta c0 t)"
    by (simp_all add: c1 sort_member_meta_def)
  have mem: "m_member_meta c1 t ! j \<in> set (m_member_meta c0 t)"
    if "j < length (m_member_meta c1 t)" for t j
    using nth_mem [OF that] by (simp add: f(3) st)
  have out: "outstanding c1 A p = outstanding c0 A p" for A p
    by (simp add: outstanding_def f(3) missing_mset [OF ms])
  show "sorted_vectors c1" using so by (simp add: sorted_vectors_def f(3))
  show "counts_ok c1 {}" using k by (simp add: counts_ok_def pass1_counts_def f(1) out)
  show "slots_ok c1"
  proof (rule slots_okI)
    fix t j assume j: "j < length (m_member_meta c1 t)"
    from mem [OF j] i show "relation_pos (m_member_meta c1 t ! j) < length (m_relations c1)"
      by (simp add: pass1_inv_def f(1))
    assume "removed (m_member_meta c1 t ! j)"
    with mem [OF j] k
    show "need_members (m_relations c1 ! relation_pos (m_member_meta c1 t ! j)) \<le> 0"
      by (simp add: pass1_counts_def)
  next
    fix p assume "p < length (m_relations c1)"
    with k show "relation_offset (m_relations c1 ! p) = p" by (simp add: pass1_counts_def f(1))
  next
    show "distinct (map obj_id (items (m_relations_buffer c1)))" by (rule di)
  qed (use i k in \<open>simp_all add: pass1_inv_def pass1_counts_def f(1,2)\<close>)
qed

lemma incomplete_offsets_drop:
  assumes s: "slots_ok c"
    and nn: "\<And>p. p < length (m_relations c) \<Longrightarrow> 0 \<le> need_members (m_relations c ! p)"
  shows "j \<le> length (m_relations c) \<Longrightarrow>
     incomplete_offsets c (drop j (m_relations c))
     = Some (filter (\<lambda>p. 0 < need_members (m_relations c ! p)) [j..<length (m_relations c)])"
proof (induction "length (m_relations c) - j" arbitrary: j)
  case 0
  then show ?case by simp
next
  case (Suc d)
  let ?n = "length (m_relations c)"
  note sd = slots_okD [OF s]
  from Suc.hyps(2) have j: "j < ?n" by simp
  have dr: "drop j (m_relations c) = m_relations c ! j # drop (Suc j) (m_relations c)"
    using j by (simp add: Cons_nth_drop_Suc)
  have up: "[j..<?n] = j # [Suc j..<?n]" using j by (simp add: upt_conv_Cons)
  from Suc.hyps(2) have "d = ?n - Suc j" "Suc j \<le> ?n" by simp_all
  note ih = Suc.hyps(1) [OF this]
  show ?case
  proof (cases "0 < need_members (m_relations c ! j)")
    case False
    with nn [OF j] have "has_all_members (m_relations c ! j)" by (simp add: has_all_members_def)
    with False ih show ?thesis unfolding dr up by simp
  next
    case True
    then have h: "\<not> has_all_members (m_relations c ! j)" by (simp add: has_all_members_def)
    from sd(5) [OF j True] j sd(1,2)
    have "get_relation_of_meta c (m_relations c ! j) = Some (items (m_relations_buffer c) ! j)"
      and "relation_offset (m_relations c ! j) = j"
      by (simp_all add: get_relation_of_meta_def get_relation_def get_def)
    with True h ih show ?thesis unfolding dr up by simp
  qed
qed

text \<open>
  C6 as stated fails when an object arrives twice. Relation 31 has the members
  way 1 and way 2. Way 1 arrives twice and way 2 never arrives: the second arrival
  decrements the counter of relation 31 a second time, \<open>complete_relation\<close> is
  called for it, and \<open>get_incomplete_relations\<close> returns nothing, although one
  record of relation 31 (index 0) belongs to an object that has not arrived.
\<close>

theorem early_completion_counterexample:
  "Option.bind
     (read_relations (sort_key member_id) (default_hooks False True False) Collector_new
        early_relations)
     (\<lambda>c1. Option.bind
        (apply_pass2 (default_hooks False True False) c1 [mk_way 1, mk_way 1])
        (\<lambda>c2. map_option
           (\<lambda>r. (r, map snd (completions (calls c2)), outstanding c1 {(way, 1)} 0))
           (get_incomplete_relations c2)))
   = Some ([], [0], 1)"
  by (simp add: read_relations_def sort_member_meta_def early_relations_def mk_member_def
        mk_relation_def mk_way_def pass1_object_def
        default_hooks_def add_relation_def Let_def Collector_new_def Buffer_new_def
        add_item_def get_def RelationMeta_at_def increment_need_members_def
        has_all_members_def commit_def rollback_def pass2_defs numeral_eq_Suc
        MemberMeta_new_def get_incomplete_relations_def outstanding_def missing_def)

text \<open>
  C6, amended. When the relations stored by the first pass have distinct ids and no
  two objects that reach \<open>find_and_add_object\<close> in the second pass have the same
  kind and id, and the second pass returns without a failed assertion (\<open>flush\<close>
  is an empty hook and changes nothing): then
  \<open>get_incomplete_relations\<close> returns, in the order of \<open>m_relations\<close>, exactly
  the stored relations that have at least one kept member whose object has not
  arrived; and no relation for which \<open>complete_relation\<close> was called has such a
  member, so none of them is returned.
\<close>

theorem incomplete_relations_exact:
  assumes "sort_spec std_sort"
    and "read_relations std_sort T Collector_new input = Some c1"
    and "distinct (map obj_id (items (m_relations_buffer c1)))"
    and "apply_pass2 T c1 objs = Some c2"
    and "distinct (arrived T objs)"
  shows "get_incomplete_relations c2
         = Some (filter (\<lambda>p. 0 < outstanding c1 (set (arrived T objs)) p)
                   [0..<length (m_relations c1)])
     \<and> (\<forall>p\<in>set (map snd (completions (calls c2))).
           outstanding c1 (set (arrived T objs)) p = 0)"
proof -
  let ?A = "set (arrived T objs)"
  note i = read_relations_counts [OF assms(1,2,3)]
  from apply_pass2_counts [OF assms(4) i assms(5)]
  have s: "slots_ok c2" and co: "counts_ok c2 ?A"
    and k: "\<And>t. keeps_keys (m_member_meta c1 t) (m_member_meta c2 t)"
    and l: "length (m_relations c2) = length (m_relations c1)"
    by simp_all
  have need: "need_members (m_relations c2 ! p) = int (outstanding c1 ?A p)"
    if "p < length (m_relations c2)" for p
    using co that by (simp add: counts_ok_def outstanding_keys [of c1 c2, OF k])
  have "get_incomplete_relations c2
        = Some (filter (\<lambda>p. 0 < need_members (m_relations c2 ! p)) [0..<length (m_relations c2)])"
    using incomplete_offsets_drop [OF s, of 0] need
    by (simp add: get_incomplete_relations_def)
  also have "filter (\<lambda>p. 0 < need_members (m_relations c2 ! p)) [0..<length (m_relations c2)]
             = filter (\<lambda>p. 0 < outstanding c1 ?A p) [0..<length (m_relations c2)]"
    using need by (intro filter_cong) simp_all
  finally have 1: "get_incomplete_relations c2
         = Some (filter (\<lambda>p. 0 < outstanding c1 ?A p) [0..<length (m_relations c1)])"
    by (simp add: l)
  have "completed_once c2"
    using apply_pass2_inv [OF assms(4) read_relations_inv [OF assms(2)]]
    by (simp add: pass2_inv_def)
  then have "p < length (m_relations c2) \<and> need_members (m_relations c2 ! p) \<le> 0"
    if "p \<in> set (map snd (completions (calls c2)))" for p
    using that unfolding completed_once_def by blast
  with need have 2: "\<forall>p\<in>set (map snd (completions (calls c2))). outstanding c1 ?A p = 0"
    by fastforce
  from 1 2 show ?thesis by blast
qed

theorem incomplete_relations_exact_witness:
  "get_incomplete_relations dup_once = Some [1]
   \<and> map snd (completions (calls dup_once)) = [0]
   \<and> outstanding dup_pass1 {(way, 1)} 0 = 0"
proof -
  let ?T = "default_hooks False True False"
  have d: "distinct (map obj_id (items (m_relations_buffer dup_pass1)))"
    by (simp add: dup_defs)
  have a: "arrived ?T [mk_way 1] = [(way, 1)]"
    by (simp add: arrived_def handled_def default_hooks_def mk_way_def)
  have o: "outstanding dup_pass1 {(way, 1)} 0 = 0" "outstanding dup_pass1 {(way, 1)} (Suc 0) = 1"
    by (simp_all add: outstanding_def missing_def dup_pass1_def)
  have l: "[0..<length (m_relations dup_pass1)] = [0, Suc 0]"
    by (simp add: dup_pass1_def upt_conv_Cons)
  have c: "map snd (completions (calls dup_once)) = [0]" by (simp add: dup_once_def)
  from incomplete_relations_exact [OF sort_key_spec dup_read_relations d dup_first_arrival]
  show ?thesis unfolding a l c by (simp add: o)
qed

subsection \<open>An assertion that a duplicate can fail\<close>

text \<open>
  A second arrival can fail an assertion. After ways 5 and 0 both relations are
  complete and their entries reset. When way 0 arrives again its record is still
  unremoved; the reset entry leads to the relation at offset 0, which has one member,
  and the assertion on \<open>member_pos\<close> (here 1) fails.
\<close>

lemma duplicate_zero_id_assertion:
  "Option.bind
     (read_relations (sort_key member_id) (default_hooks False True False) Collector_new
        zero_id_relations)
     (\<lambda>c1. map_option (\<lambda>c2. map snd (completions (calls c2)))
        (apply_pass2 (default_hooks False True False) c1 [mk_way 5, mk_way 0]))
   = Some [0, 1]
   \<and> Option.bind
     (read_relations (sort_key member_id) (default_hooks False True False) Collector_new
        zero_id_relations)
     (\<lambda>c1. apply_pass2 (default_hooks False True False) c1 [mk_way 5, mk_way 0, mk_way 0])
   = None"
  by (simp add: read_relations_def sort_member_meta_def zero_id_relations_def mk_member_def
        mk_relation_def mk_way_def pass1_object_def
        default_hooks_def add_relation_def Let_def Collector_new_def Buffer_new_def
        add_item_def get_def RelationMeta_at_def increment_need_members_def
        has_all_members_def commit_def rollback_def pass2_defs numeral_eq_Suc
        MemberMeta_new_def)

subsection \<open>Relations that share an id\<close>

lemma pos_sort_spec: "sort_spec pos_sort"
  by (simp add: sort_spec_def pos_sort_def)

text \<open>
  The hypothesis of distinct relation ids is needed. With the input above and the
  sort above, no object arrives twice, yet when way 1 arrives the records of the
  relations sharing id 7 are removed in the wrong order: the record of the last
  relation is marked removed before the loop reaches it, the loop stops there, and
  the relation at index 3 stays in \<open>get_incomplete_relations\<close> although both its
  members have arrived.
\<close>

lemma shared_relation_id_example:
  "distinct (arrived (default_hooks False True False) [mk_way 1, mk_way 2])
   \<and> Option.bind
     (read_relations pos_sort (default_hooks False True False) Collector_new
        shared_id_relations)
     (\<lambda>c1. Option.bind
        (apply_pass2 (default_hooks False True False) c1 [mk_way 1, mk_way 2])
        (\<lambda>c2. map_option
           (\<lambda>r. (r, map (outstanding c1 {(way, 1), (way, 2)}) [0, 1, 2, 3]))
           (get_incomplete_relations c2)))
   = Some ([0, 3], [1, 0, 0, 0])"
  by (simp add: read_relations_def sort_member_meta_def shared_id_relations_def mk_member_def
        mk_relation_def mk_way_def pass1_object_def pos_sort_def
        default_hooks_def add_relation_def Let_def Collector_new_def Buffer_new_def
        add_item_def get_def RelationMeta_at_def increment_need_members_def
        has_all_members_def commit_def rollback_def pass2_defs numeral_eq_Suc
        MemberMeta_new_def get_incomplete_relations_def outstanding_def missing_def
        arrived_def handled_def)

subsection \<open>When a compaction returns\<close>









subsection \<open>The state in which find-and-add returns\<close>

lemma flagged_refl [simp]: "flagged b b"
  by (simp add: flagged_def list_all2_refl)

lemma flagged_trans:
  assumes "flagged b b1" and "flagged b1 b2"
  shows "flagged b b2"
proof -
  have "list_all2 (\<lambda>x y. y = x \<or> y = x\<lparr>removed_flag := True\<rparr>) (items b) (items b2)"
    by (rule list_all2_trans [OF _ assms(1) [unfolded flagged_def, THEN conjunct2]
          assms(2) [unfolded flagged_def, THEN conjunct2]]) auto
  with assms show ?thesis by (simp add: flagged_def)
qed

lemma offsets_kept_refl [simp]: "offsets_kept c c"
  by (simp add: offsets_kept_def)

lemma offsets_kept_trans:
  assumes "offsets_kept c c1" and "offsets_kept c1 c2"
  shows "offsets_kept c c2"
  using assms flagged_trans [of "m_members_buffer c" "m_members_buffer c1" "m_members_buffer c2"]
  by (simp add: offsets_kept_def)

lemma remove_first_offsets:
  "remove_first c rid t is = Some c' \<Longrightarrow> offsets_kept c c' \<and> calls c' = calls c"
proof (induction "is")
  case Nil
  then show ?case by simp
next
  case (Cons i "is")
  let ?v = "m_member_meta c t"
  have u: "map buffer_offset (?v[i := remove_mm (?v ! i)]) = map buffer_offset ?v"
  proof (rule nth_equalityI)
    fix j assume "j < length (map buffer_offset (?v[i := remove_mm (?v ! i)]))"
    then show "map buffer_offset (?v[i := remove_mm (?v ! i)]) ! j = map buffer_offset ?v ! j"
      by (cases "j = i") (simp_all add: remove_mm_def)
  qed simp
  from Cons show ?case
    by (auto simp: Let_def set_member_meta_def offsets_kept_def u
          split: if_splits option.splits)
qed

lemma set_member_removed_offsets:
  assumes "set_member_removed c offset = Some c'"
  shows "offsets_kept c c' \<and> calls c' = calls c"
proof -
  let ?b = "m_members_buffer c"
  from assms obtain obj where g: "get_member c offset = Some obj"
    and c': "c' = c\<lparr>m_members_buffer := ?b\<lparr>items := (items ?b)[offset := obj\<lparr>removed_flag := True\<rparr>]\<rparr>\<rparr>"
    by (auto simp: set_member_removed_def split: option.splits)
  from g have o: "offset < length (items ?b)" "items ?b ! offset = obj"
    by (auto simp: get_member_def get_def split: if_splits)
  have "list_all2 (\<lambda>x y. y = x \<or> y = x\<lparr>removed_flag := True\<rparr>) (items ?b)
          ((items ?b)[offset := obj\<lparr>removed_flag := True\<rparr>])"
    using o by (simp add: list_all2_conv_all_nth nth_list_update)
  then show ?thesis by (simp add: c' offsets_kept_def flagged_def)
qed

lemma clear_members_offsets:
  "clear_members c rel ms = Some c' \<Longrightarrow> offsets_kept c c' \<and> calls c' = calls c"
proof (induction ms arbitrary: c)
  case Nil
  then show ?case by simp
next
  case (Cons m ms)
  show ?case
  proof (cases "ref m \<noteq> 0")
    case False
    with Cons.prems Cons.IH [of c] show ?thesis by simp
  next
    case True
    let ?t = "member_type m"
    let ?rng = "find_member_meta c ?t (ref m)"
    from True Cons.prems(1) obtain c1 c2 where
      a: "(if count_not_removed (m_member_meta c ?t) ?rng = 1
           then set_member_removed c (buffer_offset (m_member_meta c ?t ! fst ?rng))
           else Some c) = Some c1"
      and b: "remove_first c1 (obj_id rel) ?t [fst ?rng..<snd ?rng] = Some c2"
      and r: "clear_members c2 rel ms = Some c'"
      by (auto simp: Let_def split: if_splits option.splits)
    have 1: "offsets_kept c c1 \<and> calls c1 = calls c"
      using a set_member_removed_offsets [of c _ c1]
      by (cases "count_not_removed (m_member_meta c ?t) ?rng = 1") simp_all
    note 2 = remove_first_offsets [OF b]
    note 3 = Cons.IH [OF r]
    from 1 2 3 offsets_kept_trans [of c c1 c2] offsets_kept_trans [of c c2 c']
    show ?thesis by simp
  qed
qed

lemma clear_member_metas_offsets:
  "clear_member_metas c rm = Some c' \<Longrightarrow> offsets_kept c c' \<and> calls c' = calls c"
  unfolding clear_member_metas_def
  by (auto split: option.splits dest: clear_members_offsets)

lemma possibly_purge_offsets:
  assumes "possibly_purge_removed_members c = Some c'"
  shows "count_purges (calls c')
         = count_purges (calls c) + (if m_count_complete c + 1 > 10000 then 1 else 0)"
    and "\<not> m_count_complete c + 1 > 10000 \<Longrightarrow> offsets_kept c c'"
proof -
  show "count_purges (calls c')
         = count_purges (calls c) + (if m_count_complete c + 1 > 10000 then 1 else 0)"
    using possibly_purge_counter(2) [OF assms] by simp
  assume "\<not> m_count_complete c + 1 > 10000"
  with assms have "c' = c\<lparr>m_count_complete := m_count_complete c + 1\<rparr>"
    by (simp add: possibly_purge_removed_members_def Let_def)
  then show "offsets_kept c c'" by (simp add: offsets_kept_def)
qed

lemma notify_relations_no_purge:
  assumes run: "notify_relations c0 object is = Some c'"
  shows "count_purges (calls c0) \<le> count_purges (calls c')
     \<and> (count_purges (calls c') = count_purges (calls c0) \<longrightarrow> offsets_kept c0 c')"
  using run
proof (rule notify_relations_rule
    [where Q = "\<lambda>c. count_purges (calls c0) \<le> count_purges (calls c)
       \<and> (count_purges (calls c) = count_purges (calls c0) \<longrightarrow> offsets_kept c0 c)"])
  show "count_purges (calls c0) \<le> count_purges (calls c0)
     \<and> (count_purges (calls c0) = count_purges (calls c0) \<longrightarrow> offsets_kept c0 c0)"
    by simp
next
  fix c :: Collector and i
  let ?q = "relation_pos (m_member_meta c (obj_type object) ! i)"
  let ?c1 = "c\<lparr>m_relations := (m_relations c)[?q := got_one_member (m_relations c ! ?q)]\<rparr>"
  assume q: "count_purges (calls c0) \<le> count_purges (calls c)
     \<and> (count_purges (calls c) = count_purges (calls c0) \<longrightarrow> offsets_kept c0 c)"
  have "offsets_kept c ?c1" by (simp add: offsets_kept_def)
  with q offsets_kept_trans [of c0 c ?c1]
  show "count_purges (calls c0) \<le> count_purges (calls ?c1)
     \<and> (count_purges (calls ?c1) = count_purges (calls c0) \<longrightarrow> offsets_kept c0 ?c1)"
    by auto
next
  fix c c3 c4 :: Collector and i
  let ?q = "relation_pos (m_member_meta c (obj_type object) ! i)"
  let ?rm1 = "got_one_member (m_relations c ! ?q)"
  let ?c1 = "c\<lparr>m_relations := (m_relations c)[?q := ?rm1]\<rparr>"
  let ?c2 = "log_call ?c1 (complete_relation i ?q ?rm1)"
  let ?c3' = "c3\<lparr>m_relations := (m_relations c3)[?q := RelationMeta_default]\<rparr>"
  assume q: "count_purges (calls c0) \<le> count_purges (calls c)
     \<and> (count_purges (calls c) = count_purges (calls c0) \<longrightarrow> offsets_kept c0 c)"
    and cl: "clear_member_metas ?c2 ?rm1 = Some c3"
    and pp: "possibly_purge_removed_members ?c3' = Some c4"
  have k2: "offsets_kept c ?c2" by (simp add: offsets_kept_def log_call_def)
  have n2: "count_purges (calls ?c2) = count_purges (calls c)" by (simp add: log_call_def)
  note k3 = clear_member_metas_offsets [OF cl]
  have k3': "offsets_kept c ?c3'"
    using offsets_kept_trans [OF k2 conjunct1 [OF k3]] by (simp add: offsets_kept_def)
  have n3: "count_purges (calls ?c3') = count_purges (calls c)" using k3 n2 by simp
  note p = possibly_purge_offsets [OF pp]
  show "count_purges (calls c0) \<le> count_purges (calls c4)
     \<and> (count_purges (calls c4) = count_purges (calls c0) \<longrightarrow> offsets_kept c0 c4)"
  proof (cases "m_count_complete ?c3' + 1 > 10000")
    case True
    with p(1) n3 q show ?thesis by simp
  next
    case False
    from p(2) [OF False] k3' have "offsets_kept c c4" by (rule offsets_kept_trans [rotated])
    with False p(1) n3 q offsets_kept_trans [of c0 c c4] show ?thesis by auto
  qed
qed

lemma find_and_add_object_kept:
  assumes f: "find_and_add_object c object = Some (found, c')"
    and n: "count_not_removed (m_member_meta c (obj_type object))
              (find_member_meta c (obj_type object) (obj_id object)) \<noteq> 0"
  shows "count_purges (calls c) \<le> count_purges (calls c')"
    and "count_purges (calls c') = count_purges (calls c) \<Longrightarrow>
           offsets_kept (store_member c object
                           (find_member_meta c (obj_type object) (obj_id object))) c'"
    and "count_purges (calls c') = count_purges (calls c) \<Longrightarrow>
           fst (find_member_meta c (obj_type object) (obj_id object)) \<le> i \<Longrightarrow>
           i < snd (find_member_meta c (obj_type object) (obj_id object)) \<Longrightarrow>
           buffer_offset (m_member_meta c' (obj_type object) ! i) = committed (m_members_buffer c)"
proof -
  let ?t = "obj_type object" and ?x = "obj_id object"
  let ?rng = "find_member_meta c ?t ?x"
  let ?cs = "store_member c object ?rng"
  note le = find_member_meta_le [of c ?t ?x]
  from f n have r: "notify_relations ?cs object [fst ?rng..<snd ?rng] = Some c'"
    by (auto simp: find_and_add_object_def Let_def)
  note np = notify_relations_no_purge [OF r]
  note sf = store_member_frame [of c object ?rng]
  from np show "count_purges (calls c) \<le> count_purges (calls c')" by (simp add: sf(3))
  assume e: "count_purges (calls c') = count_purges (calls c)"
  with np show k: "offsets_kept ?cs c'" by (simp add: sf(3))
  assume i: "fst ?rng \<le> i" "i < snd ?rng"
  have l: "length (m_member_meta ?cs ?t) = length (m_member_meta c ?t)"
    using set_offsets_upt [OF le(2)] by (simp add: sf(6))
  from i le(2) l have il: "i < length (m_member_meta ?cs ?t)" by simp
  from k have m: "map buffer_offset (m_member_meta c' ?t) = map buffer_offset (m_member_meta ?cs ?t)"
    by (simp add: offsets_kept_def)
  then have "length (m_member_meta c' ?t) = length (m_member_meta ?cs ?t)"
    by (metis length_map)
  with il m have "buffer_offset (m_member_meta c' ?t ! i) = buffer_offset (m_member_meta ?cs ?t ! i)"
    by (metis nth_map)
  with store_member_offsets [OF i le(2)]
  show "buffer_offset (m_member_meta c' ?t ! i) = committed (m_members_buffer c)" by simp
qed

lemma flagged_nth:
  assumes "flagged b b'" and "off < length (items b)"
  shows "off < length (items b')"
    and "items b' ! off = items b ! off \<or> items b' ! off = (items b ! off)\<lparr>removed_flag := True\<rparr>"
proof -
  from assms(1) have l: "list_all2 (\<lambda>x y. y = x \<or> y = x\<lparr>removed_flag := True\<rparr>) (items b) (items b')"
    by (simp add: flagged_def)
  from list_all2_lengthD [OF l] assms(2) show "off < length (items b')" by simp
  from list_all2_nthD [OF l assms(2)]
  show "items b' ! off = items b ! off \<or> items b' ! off = (items b ! off)\<lparr>removed_flag := True\<rparr>" .
qed

lemma find_and_add_object_arena:
  assumes f: "find_and_add_object c object = Some (found, c')"
    and n: "count_not_removed (m_member_meta c (obj_type object))
              (find_member_meta c (obj_type object) (obj_id object)) \<noteq> 0"
    and mc: "members_committed c"
    and e: "count_purges (calls c') = count_purges (calls c)"
  shows "committed (m_members_buffer c') = Suc (committed (m_members_buffer c))"
    and "get_member c' (committed (m_members_buffer c)) = Some object
         \<or> get_member c' (committed (m_members_buffer c)) = Some (object\<lparr>removed_flag := True\<rparr>)"
    and "\<And>off old. off < committed (m_members_buffer c) \<Longrightarrow> get_member c off = Some old \<Longrightarrow>
           get_member c' off = Some old \<or> get_member c' off = Some (old\<lparr>removed_flag := True\<rparr>)"
    and "get_offset c' (obj_type object) (obj_id object) = Some (committed (m_members_buffer c))"
proof -
  let ?t = "obj_type object" and ?x = "obj_id object"
  let ?rng = "find_member_meta c ?t ?x"
  let ?cs = "store_member c object ?rng"
  let ?b = "m_members_buffer c"
  let ?n = "committed ?b"
  from mc have len: "length (items ?b) = ?n" by (simp add: members_committed_def)
  note sf = store_member_frame [of c object ?rng]
  note k = find_and_add_object_kept(2) [OF f n e]
  then have fl: "flagged (m_members_buffer ?cs) (m_members_buffer c')"
    by (simp add: offsets_kept_def)
  have its: "items (m_members_buffer ?cs) = items ?b @ [object]"
    and com: "committed (m_members_buffer ?cs) = Suc ?n"
    by (simp_all add: sf(5) len)
  from fl show c1: "committed (m_members_buffer c') = Suc ?n"
    by (simp add: flagged_def com)
  have nth: "off < length (items (m_members_buffer c'))
      \<and> (items (m_members_buffer c') ! off = (items ?b @ [object]) ! off
         \<or> items (m_members_buffer c') ! off = ((items ?b @ [object]) ! off)\<lparr>removed_flag := True\<rparr>)"
    if "off \<le> ?n" for off
    using flagged_nth [OF fl, of off] that len by (simp add: its)
  have gm: "get_member c' off = Some (items (m_members_buffer c') ! off)" if "off \<le> ?n" for off
    using nth [OF that] that by (simp add: get_member_def get_def c1)
  have last: "(items ?b @ [object]) ! ?n = object"
    using nth_append_length [of "items ?b" object] len by simp
  from nth [of ?n] show "get_member c' ?n = Some object
         \<or> get_member c' ?n = Some (object\<lparr>removed_flag := True\<rparr>)"
    unfolding gm [of ?n, OF order_refl] last by simp
  show "get_member c' off = Some old \<or> get_member c' off = Some (old\<lparr>removed_flag := True\<rparr>)"
    if o: "off < ?n" and g: "get_member c off = Some old" for off old
  proof -
    from g o len have "items ?b ! off = old" by (simp add: get_member_def get_def)
    with o len have "(items ?b @ [object]) ! off = old" by (simp add: nth_append)
    with nth [of off] o show ?thesis unfolding gm [of off, OF less_imp_le [OF o]] by simp
  qed
  from find_and_add_object_post(2) [OF f n] obtain k ks where
    "notify_post c ?t ?x (fst ?rng) (snd ?rng) c' k ks" by blast
  then have kk: "keeps_keys (m_member_meta c ?t) (m_member_meta c' ?t)"
    unfolding notify_post_def by blast
  have r: "find_member_meta c' ?t ?x = ?rng"
    using bounds_by_ids [OF keeps_keys_ids [OF kk]]
    by (simp add: find_member_meta_def equal_range_def)
  note ne = count_not_removed_nonempty [OF n]
  from find_and_add_object_kept(3) [OF f n e order_refl ne] ne
  show "get_offset c' ?t ?x = Some ?n"
    by (simp add: get_offset_def r Let_def)
qed

text \<open>
  C3, amended. For every collector state and every object whose equal-range holds at
  least one unremoved \<open>MemberMeta\<close>, when \<open>find_and_add_object\<close> returns: it
  returns true; the block that stores the object points every record of the range
  to the new copy, and every record of the range still has that \<open>buffer_offset\<close>
  when the call returns, unless a purge was issued during the call (a compaction
  rewrites offsets); the second loop visits the range in ascending position up to
  the first record it finds removed (position \<open>k\<close>, or the end of the range), the
  visited records were not removed and each decrements \<open>need_members\<close> of its
  relation by one, and no record from \<open>k\<close> on is visited; the \<open>complete_relation\<close>
  calls of this object are made in ascending order of the positions of the records
  that triggered them.
\<close>

theorem find_and_add_object_visits:
  assumes "find_and_add_object c object = Some (found, c')"
    and "count_not_removed (m_member_meta c (obj_type object))
           (find_member_meta c (obj_type object) (obj_id object)) \<noteq> 0"
  shows "found
    \<and> (\<forall>i. fst (find_member_meta c (obj_type object) (obj_id object)) \<le> i
           \<and> i < snd (find_member_meta c (obj_type object) (obj_id object)) \<longrightarrow>
           buffer_offset
             (m_member_meta
                (store_member c object (find_member_meta c (obj_type object) (obj_id object)))
                (obj_type object) ! i)
           = committed (m_members_buffer c))
    \<and> (count_purges (calls c') = count_purges (calls c) \<longrightarrow>
         (\<forall>i. fst (find_member_meta c (obj_type object) (obj_id object)) \<le> i
             \<and> i < snd (find_member_meta c (obj_type object) (obj_id object)) \<longrightarrow>
             buffer_offset (m_member_meta c' (obj_type object) ! i)
             = committed (m_members_buffer c)))
    \<and> (\<exists>k ks.
          fst (find_member_meta c (obj_type object) (obj_id object)) \<le> k
        \<and> k \<le> snd (find_member_meta c (obj_type object) (obj_id object))
        \<and> (\<forall>i. fst (find_member_meta c (obj_type object) (obj_id object)) \<le> i \<and> i < k \<longrightarrow>
               \<not> removed (m_member_meta c (obj_type object) ! i))
        \<and> (k < snd (find_member_meta c (obj_type object) (obj_id object)) \<longrightarrow>
               removed (m_member_meta c' (obj_type object) ! k))
        \<and> (\<forall>p<length (m_relations c).
               need_members (m_relations c' ! p)
               = need_members (m_relations c ! p)
                 - int (hits (m_member_meta c (obj_type object))
                         (fst (find_member_meta c (obj_type object) (obj_id object))) k p))
        \<and> completions (calls c') = completions (calls c) @ ks
        \<and> sorted_wrt (<) (map fst ks)
        \<and> (\<forall>e\<in>set ks.
               fst (find_member_meta c (obj_type object) (obj_id object)) \<le> fst e
             \<and> fst e < k
             \<and> snd e = relation_pos (m_member_meta c (obj_type object) ! fst e)))"
proof -
  let ?rng = "find_member_meta c (obj_type object) (obj_id object)"
  note le = find_member_meta_le [of c "obj_type object" "obj_id object"]
  from find_and_add_object_post [OF assms] obtain k ks where f: "found"
    and post: "notify_post c (obj_type object) (obj_id object) (fst ?rng) (snd ?rng) c' k ks"
    by blast
  have o: "\<forall>i. fst ?rng \<le> i \<and> i < snd ?rng \<longrightarrow>
           buffer_offset (m_member_meta (store_member c object ?rng) (obj_type object) ! i)
           = committed (m_members_buffer c)"
    using store_member_offsets [OF _ _ le(2)] by blast
  have o': "count_purges (calls c') = count_purges (calls c) \<longrightarrow>
         (\<forall>i. fst ?rng \<le> i \<and> i < snd ?rng \<longrightarrow>
             buffer_offset (m_member_meta c' (obj_type object) ! i)
             = committed (m_members_buffer c))"
    using find_and_add_object_kept(3) [OF assms] by blast
  from post [unfolded notify_post_def] f o o' show ?thesis by blast
qed

theorem find_and_add_object_visits_witness:
  "\<exists>c' k ks. find_and_add_object dup_once (mk_way 1) = Some (True, c')
     \<and> count_not_removed (m_member_meta dup_once way) (find_member_meta dup_once way 1) = 1
     \<and> find_member_meta dup_once way 1 = (0, 2)
     \<and> count_purges (calls c') = count_purges (calls dup_once)
     \<and> committed (m_members_buffer dup_once) = 1
     \<and> buffer_offset (m_member_meta c' way ! 0) = 1
     \<and> buffer_offset (m_member_meta c' way ! 1) = 1
     \<and> k \<le> snd (find_member_meta dup_once way 1)
     \<and> completions (calls c') = completions (calls dup_once) @ ks
     \<and> sorted_wrt (<) (map fst ks)"
proof -
  let ?c = dup_once and ?w = "mk_way 1"
  have "map_option (\<lambda>r. (fst r, count_purges (calls (snd r)))) (find_and_add_object ?c ?w)
        = Some (True, 0)"
    by (simp add: dup_defs pass2_defs numeral_eq_Suc)
  then obtain c' where eq: "find_and_add_object ?c ?w = Some (True, c')"
    and cp: "count_purges (calls c') = 0"
    by (cases "find_and_add_object ?c ?w") auto
  have n: "count_not_removed (m_member_meta ?c way) (find_member_meta ?c way 1) = 1"
    and r: "find_member_meta ?c way 1 = (0, 2)"
    and z: "count_purges (calls ?c) = 0" "committed (m_members_buffer ?c) = 1"
    by (simp_all add: dup_once_def find_member_meta_def equal_range_def
          lower_bound_def upper_bound_def count_not_removed_def)
  have t: "obj_type ?w = way" "obj_id ?w = 1" by (simp_all add: mk_way_def)
  from find_and_add_object_visits [OF eq] n cp
  have a: "\<forall>i. 0 \<le> i \<and> i < 2 \<longrightarrow> buffer_offset (m_member_meta c' way ! i) = 1"
    and "\<exists>(k::nat) ks. k \<le> 2 \<and> completions (calls c') = completions (calls ?c) @ ks
           \<and> sorted_wrt (<) (map fst ks)"
    unfolding t r z by auto
  then obtain k ks where "k \<le> (2::nat)"
    "completions (calls c') = completions (calls ?c) @ ks" "sorted_wrt (<) (map fst ks)"
    by blast
  moreover from a have "buffer_offset (m_member_meta c' way ! 0) = 1"
    "buffer_offset (m_member_meta c' way ! 1) = 1" by simp_all
  ultimately show ?thesis using eq n r cp z by auto
qed

text \<open>
  C2, amended. After the first pass and any objects of the second pass, duplicates
  included, when \<open>find_and_add_object\<close> returns for a further object: it returns
  true iff the equal-range holds an unremoved \<open>MemberMeta\<close>. In that case, unless
  a purge is issued during the call, in the state the call returns: the object is
  stored again, behind the items already in the arena, which stay at their offsets
  (the call may flag stored items removed, the new copy included); every record of
  the equal-range, and so \<open>get_offset\<close>, points to the new copy (the last copy
  stored wins). Each record the second loop visits, in ascending position up to the
  first one it finds removed, decrements \<open>need_members\<close> of its relation once more.
  No relation is handed to \<open>complete_relation\<close> twice.
\<close>

theorem duplicate_arrival:
  assumes "read_relations std_sort T Collector_new input = Some c1"
    and "apply_pass2 T c1 objs = Some c"
    and "find_and_add_object c object = Some (found, c')"
  shows "found = (count_not_removed (m_member_meta c (obj_type object))
                    (find_member_meta c (obj_type object) (obj_id object)) \<noteq> 0)
    \<and> (found \<longrightarrow>
          (count_purges (calls c') = count_purges (calls c) \<longrightarrow>
              committed (m_members_buffer c') = Suc (committed (m_members_buffer c))
            \<and> (get_member c' (committed (m_members_buffer c)) = Some object
               \<or> get_member c' (committed (m_members_buffer c))
                  = Some (object\<lparr>removed_flag := True\<rparr>))
            \<and> (\<forall>off old. off < committed (m_members_buffer c)
                  \<and> get_member c off = Some old \<longrightarrow>
                  get_member c' off = Some old
                  \<or> get_member c' off = Some (old\<lparr>removed_flag := True\<rparr>))
            \<and> get_offset c' (obj_type object) (obj_id object)
                = Some (committed (m_members_buffer c))
            \<and> (\<forall>i. fst (find_member_meta c (obj_type object) (obj_id object)) \<le> i
                   \<and> i < snd (find_member_meta c (obj_type object) (obj_id object)) \<longrightarrow>
                   buffer_offset (m_member_meta c' (obj_type object) ! i)
                   = committed (m_members_buffer c)))
        \<and> (\<exists>k. fst (find_member_meta c (obj_type object) (obj_id object)) \<le> k
              \<and> k \<le> snd (find_member_meta c (obj_type object) (obj_id object))
              \<and> (\<forall>i. fst (find_member_meta c (obj_type object) (obj_id object)) \<le> i
                      \<and> i < k \<longrightarrow> \<not> removed (m_member_meta c (obj_type object) ! i))
              \<and> (k < snd (find_member_meta c (obj_type object) (obj_id object)) \<longrightarrow>
                     removed (m_member_meta c' (obj_type object) ! k))
              \<and> (\<forall>p<length (m_relations c).
                     need_members (m_relations c' ! p)
                     = need_members (m_relations c ! p)
                       - int (hits (m_member_meta c (obj_type object))
                               (fst (find_member_meta c (obj_type object) (obj_id object)))
                               k p))))
    \<and> distinct (map snd (completions (calls c')))"
proof -
  let ?t = "obj_type object" and ?x = "obj_id object"
  let ?rng = "find_member_meta c ?t ?x"
  let ?b = "m_members_buffer c"
  have inv: "pass2_inv c"
    using apply_pass2_inv [OF assms(2) read_relations_inv [OF assms(1)]] .
  then have mc: "members_committed c" by (simp add: pass2_inv_def)
  have 1: "found = (count_not_removed (m_member_meta c ?t) ?rng \<noteq> 0)"
    using assms(3) by (auto simp: find_and_add_object_def Let_def split: if_splits)
  have 3: "distinct (map snd (completions (calls c')))"
    using find_and_add_object_inv [OF assms(3) inv]
    by (simp add: pass2_inv_def completed_once_def)
  have 2: "(count_purges (calls c') = count_purges (calls c) \<longrightarrow>
              committed (m_members_buffer c') = Suc (committed ?b)
            \<and> (get_member c' (committed ?b) = Some object
               \<or> get_member c' (committed ?b) = Some (object\<lparr>removed_flag := True\<rparr>))
            \<and> (\<forall>off old. off < committed ?b \<and> get_member c off = Some old \<longrightarrow>
                  get_member c' off = Some old
                  \<or> get_member c' off = Some (old\<lparr>removed_flag := True\<rparr>))
            \<and> get_offset c' ?t ?x = Some (committed ?b)
            \<and> (\<forall>i. fst ?rng \<le> i \<and> i < snd ?rng \<longrightarrow>
                   buffer_offset (m_member_meta c' ?t ! i) = committed ?b))
        \<and> (\<exists>k. fst ?rng \<le> k \<and> k \<le> snd ?rng
              \<and> (\<forall>i. fst ?rng \<le> i \<and> i < k \<longrightarrow> \<not> removed (m_member_meta c ?t ! i))
              \<and> (k < snd ?rng \<longrightarrow> removed (m_member_meta c' ?t ! k))
              \<and> (\<forall>p<length (m_relations c).
                     need_members (m_relations c' ! p)
                     = need_members (m_relations c ! p)
                       - int (hits (m_member_meta c ?t) (fst ?rng) k p)))"
    if f: found
  proof -
    from f 1 have n: "count_not_removed (m_member_meta c ?t) ?rng \<noteq> 0" by simp
    have a: "committed (m_members_buffer c') = Suc (committed ?b)
            \<and> (get_member c' (committed ?b) = Some object
               \<or> get_member c' (committed ?b) = Some (object\<lparr>removed_flag := True\<rparr>))
            \<and> (\<forall>off old. off < committed ?b \<and> get_member c off = Some old \<longrightarrow>
                  get_member c' off = Some old
                  \<or> get_member c' off = Some (old\<lparr>removed_flag := True\<rparr>))
            \<and> get_offset c' ?t ?x = Some (committed ?b)
            \<and> (\<forall>i. fst ?rng \<le> i \<and> i < snd ?rng \<longrightarrow>
                   buffer_offset (m_member_meta c' ?t ! i) = committed ?b)"
      if e: "count_purges (calls c') = count_purges (calls c)"
      using find_and_add_object_arena [OF assms(3) n mc e]
        find_and_add_object_kept(3) [OF assms(3) n e]
      by blast
    from find_and_add_object_post(2) [OF assms(3) n]
    obtain k ks where "notify_post c ?t ?x (fst ?rng) (snd ?rng) c' k ks" by blast
    from this [unfolded notify_post_def]
    have e: "\<exists>k. fst ?rng \<le> k \<and> k \<le> snd ?rng
              \<and> (\<forall>i. fst ?rng \<le> i \<and> i < k \<longrightarrow> \<not> removed (m_member_meta c ?t ! i))
              \<and> (k < snd ?rng \<longrightarrow> removed (m_member_meta c' ?t ! k))
              \<and> (\<forall>p<length (m_relations c).
                     need_members (m_relations c' ! p)
                     = need_members (m_relations c ! p)
                       - int (hits (m_member_meta c ?t) (fst ?rng) k p))"
      by blast
    from a e show ?thesis by blast
  qed
  from 1 2 3 show ?thesis by blast
qed

theorem duplicate_arrival_witness:
  "\<exists>c'. find_and_add_object dup_once ((mk_way 1)\<lparr>version := 2\<rparr>) = Some (True, c')
     \<and> count_purges (calls c') = count_purges (calls dup_once)
     \<and> committed (m_members_buffer dup_once) = 1
     \<and> committed (m_members_buffer c') = 2
     \<and> get_member c' 0 = Some (mk_way 1)
     \<and> get_member c' 1 = Some ((mk_way 1)\<lparr>version := 2\<rparr>)
     \<and> get_offset c' way 1 = Some 1
     \<and> distinct (map snd (completions (calls c')))"
proof -
  let ?w = "(mk_way 1)\<lparr>version := 2\<rparr>"
  have "map_option (\<lambda>r. (fst r, count_purges (calls (snd r)), get_member (snd r) 0,
                            get_member (snd r) 1))
          (find_and_add_object dup_once ?w)
        = Some (True, 0, Some (mk_way 1), Some ?w)"
    by (simp add: dup_defs pass2_defs numeral_eq_Suc)
  then obtain c' where eq: "find_and_add_object dup_once ?w = Some (True, c')"
    and cp: "count_purges (calls c') = 0"
    and g: "get_member c' 0 = Some (mk_way 1)" "get_member c' 1 = Some ?w"
    by (cases "find_and_add_object dup_once ?w") auto
  have t: "obj_type ?w = way" "obj_id ?w = 1" "committed (m_members_buffer dup_once) = 1"
    "count_purges (calls dup_once) = 0"
    by (simp_all add: mk_way_def dup_once_def)
  from duplicate_arrival [OF dup_read_relations dup_first_arrival eq] cp
  have "committed (m_members_buffer c') = 2" "get_offset c' way 1 = Some 1"
    "distinct (map snd (completions (calls c')))"
    unfolding t by simp_all
  with eq cp g t show ?thesis by simp
qed

end
